theory Spec2Isabelle
  imports Main
begin

section \<open>The channel wrapper of rabbit-fire (src/src/ChannelWrapper.ts)\<close>

text \<open>
  The class \<^verbatim>\<open>ChannelWrapper\<close> is embedded as a record of its fields together with
  the objects it talks to: the consumer objects it shares with its callbacks, the
  listener list of its connection manager, the scheduler's queue of
  \<^verbatim>\<open>setImmediate\<close> callbacks, and logs of every call it makes on an amqplib
  channel, of every \<^verbatim>\<open>resolve\<close>/\<^verbatim>\<open>reject\<close> it calls and of every event it
  emits. Each method is a function from state to state. An \<^verbatim>\<open>async\<close> method is
  cut at its \<^verbatim>\<open>await\<close>s: what the awaited promise settles with is a parameter of
  the part that runs afterwards.

  Not modelled: the pass-through operations (ack, nack, assertQueue, ...), the
  \<^verbatim>\<open>name\<close> label and the \<^verbatim>\<open>{name}\<close> argument of error events, the message handler
  of a consumer, and consume options other than \<^verbatim>\<open>consumerTag\<close> and
  \<^verbatim>\<open>prefetch\<close>. An \<^verbatim>\<open>'error'\<close> event is assumed to have a listener (Node's
  EventEmitter throws otherwise). Setup functions return promises, as their type
  \<^verbatim>\<open>SetupFunc\<close> says.
\<close>

subsection \<open>Data\<close>

type_synonym chan = nat

type_synonym publish_options = "(string \<times> string) list"

datatype error_obj = JsError (err_name: string) (err_code: "nat option") (err_message: string)

text \<open>\<^verbatim>\<open>new Error('Channel closed')\<close>\<close>

definition channel_closed :: error_obj where
  "channel_closed = JsError ''Error'' None ''Channel closed''"

text \<open>\<^verbatim>\<open>const MAX_MESSAGES_PER_BATCH = 1000\<close>\<close>

definition MAX_MESSAGES_PER_BATCH :: nat where
  "MAX_MESSAGES_PER_BATCH = 1000"

text \<open>
  \<^verbatim>\<open>interface PublishMessage\<close>. The pair \<^verbatim>\<open>resolve\<close>, \<^verbatim>\<open>reject\<close> is the identity
  of the promise that \<^verbatim>\<open>publish\<close> returned.
\<close>

record message =
  exchange :: string
  routingKey :: string
  content :: string
  options :: "publish_options option"
  promise :: nat
  isTimedout :: bool

text \<open>
  \<^verbatim>\<open>interface Consumer\<close>; \<open>tag_option\<close> is \<^verbatim>\<open>options.consumerTag\<close> and
  \<open>prefetch\<close> is \<^verbatim>\<open>options.prefetch\<close>.
\<close>

record consumer =
  consumerTag :: "string option"
  queue :: string
  prefetch :: "nat option"
  tag_option :: string

datatype listener = OnConnect | OnDisconnect | Foreign nat

datatype settlement = Resolved bool | Rejected error_obj

text \<open>What \<^verbatim>\<open>channel.publish\<close> does: it returns whether room remains, or throws.\<close>

datatype pub_result = Returns bool | Throws error_obj

datatype setup_result = Fulfilled | Failed error_obj

text \<open>What the promise of \<^verbatim>\<open>channel.consume\<close> settles with.\<close>

datatype consume_reply = Subscribed string | Refused error_obj

datatype wrapper_event = ConnectEv | ErrorEv error_obj | CloseEv

text \<open>
  Calls on an amqplib channel other than \<^verbatim>\<open>publish\<close>. \<open>ConsumeCall ch q t c\<close> is
  \<^verbatim>\<open>ch.consume(q, handler, {consumerTag: t})\<close> with the handler of consumer object \<open>c\<close>.
\<close>

datatype chan_call =
    Prefetch chan nat
  | ConsumeCall chan string string nat
  | CancelCall chan string
  | CloseCall chan

text \<open>
  One call of \<^verbatim>\<open>channel.publish\<close>: the channel, the four arguments, what the call
  did, the promise it serves, and the queued message it was made for (\<open>None\<close> when
  \<^verbatim>\<open>publish\<close> sent it directly).
\<close>

record publish_call =
  pc_channel :: chan
  pc_exchange :: string
  pc_routingKey :: string
  pc_content :: string
  pc_options :: "publish_options option"
  pc_result :: pub_result
  pc_promise :: nat
  pc_message :: "message option"

record wrapper =
  settingUp :: bool
  setups :: "nat list"
  messages :: "message list"
  consumers :: "nat list"
  channel :: "chan option"
  working :: bool
  workerNumber :: nat
  channelHasRoom :: bool
  consumer_objs :: "nat \<Rightarrow> consumer option"
  allocated :: nat
  promises :: nat
  mgr_listeners :: "(string \<times> listener) list"
  immediates :: "nat list"
  creating :: nat
  chains :: nat
  opened :: "chan list"
  sent :: "publish_call list"
  settled :: "(nat \<times> settlement) list"
  emitted :: "wrapper_event list"
  chan_calls :: "chan_call list"
  setup_calls :: "(nat \<times> chan) list"
  enqueued :: "message list"

text \<open>
  The fields down to \<open>channelHasRoom\<close> are the private fields of the class
  (\<open>settingUp\<close> is whether \<^verbatim>\<open>_settingUp\<close> holds a promise; a setup function is a
  number). Then: the consumer objects by reference and the number created; the
  number of promises \<^verbatim>\<open>publish\<close> has created; the connection manager's listeners;
  the \<^verbatim>\<open>setImmediate\<close> callbacks not yet run, each the worker number it was
  scheduled with; the number of \<^verbatim>\<open>createChannel\<close> calls and of setup chains in
  flight; the channels carrying the wrapper's \<^verbatim>\<open>close\<close> and \<^verbatim>\<open>drain\<close> listeners.
  The rest are logs, oldest first; \<open>enqueued\<close> logs the arguments of
  \<^verbatim>\<open>_enqueueMessage\<close>.
\<close>

subsection \<open>Promises, events, listeners\<close>

text \<open>Calling \<^verbatim>\<open>resolve\<close> or \<^verbatim>\<open>reject\<close> of promise \<open>p\<close>.\<close>

definition settle :: "nat \<Rightarrow> settlement \<Rightarrow> wrapper \<Rightarrow> wrapper" where
  "settle p r s = s\<lparr>settled := settled s @ [(p, r)]\<rparr>"

text \<open>
  A promise keeps its first settlement; later calls of \<^verbatim>\<open>resolve\<close> and
  \<^verbatim>\<open>reject\<close> do nothing. \<open>None\<close> is pending.
\<close>

definition promise_state :: "wrapper \<Rightarrow> nat \<Rightarrow> settlement option" where
  "promise_state s p = map_of (settled s) p"

definition emit :: "wrapper_event \<Rightarrow> wrapper \<Rightarrow> wrapper" where
  "emit ev s = s\<lparr>emitted := emitted s @ [ev]\<rparr>"

definition chan_call :: "chan_call \<Rightarrow> wrapper \<Rightarrow> wrapper" where
  "chan_call c s = s\<lparr>chan_calls := chan_calls s @ [c]\<rparr>"

text \<open>
  \<^verbatim>\<open>EventEmitter.on\<close> appends; \<^verbatim>\<open>removeListener\<close> removes one instance, the most
  recently added.
\<close>

definition addListener :: "string \<Rightarrow> listener \<Rightarrow> wrapper \<Rightarrow> wrapper" where
  "addListener ev l s = s\<lparr>mgr_listeners := mgr_listeners s @ [(ev, l)]\<rparr>"

definition removeListener :: "string \<Rightarrow> listener \<Rightarrow> wrapper \<Rightarrow> wrapper" where
  "removeListener ev l s = s\<lparr>mgr_listeners := rev (remove1 (ev, l) (rev (mgr_listeners s)))\<rparr>"

subsection \<open>The publish path\<close>

definition enqueueMessage :: "message \<Rightarrow> wrapper \<Rightarrow> wrapper" where
  "enqueueMessage m s = s\<lparr>messages := messages s @ [m], enqueued := enqueued s @ [m]\<rparr>"

definition direct_call ::
  "chan \<Rightarrow> string \<Rightarrow> string \<Rightarrow> string \<Rightarrow> publish_options option \<Rightarrow> pub_result \<Rightarrow> nat \<Rightarrow> publish_call"
where
  "direct_call ch ex rk body opt r p =
     \<lparr>pc_channel = ch, pc_exchange = ex, pc_routingKey = rk, pc_content = body,
      pc_options = opt, pc_result = r, pc_promise = p, pc_message = None\<rparr>"

definition queued_call :: "chan \<Rightarrow> message \<Rightarrow> pub_result \<Rightarrow> publish_call" where
  "queued_call ch m r =
     \<lparr>pc_channel = ch, pc_exchange = exchange m, pc_routingKey = routingKey m,
      pc_content = content m, pc_options = options m, pc_result = r,
      pc_promise = promise m, pc_message = Some m\<rparr>"

definition log_send :: "publish_call \<Rightarrow> wrapper \<Rightarrow> wrapper" where
  "log_send c s = s\<lparr>sent := sent s @ [c]\<rparr>"

text \<open>
  \<^verbatim>\<open>publish(exchange, routingKey, content, options)\<close>. The parameter \<open>pub\<close> is the
  channel's side of \<^verbatim>\<open>channel.publish\<close>: \<open>pub n\<close> is what the call does when \<open>n\<close>
  calls were made before it. A throw inside the promise's executor rejects the
  promise.
\<close>

definition publish ::
  "(nat \<Rightarrow> pub_result) \<Rightarrow> string \<Rightarrow> string \<Rightarrow> string \<Rightarrow> publish_options option \<Rightarrow> wrapper \<Rightarrow> wrapper"
where
  "publish pub ex rk body opt s0 =
     (let p = promises s0;
          s = s0\<lparr>promises := Suc p\<rparr>;
          opts = (case opt of None \<Rightarrow> [] | Some v \<Rightarrow> v)
      in if \<not> settingUp s \<and> channel s \<noteq> None \<and> channelHasRoom s then
           (case pub (length (sent s)) of
              Returns b \<Rightarrow>
                settle p (Resolved b)
                  ((log_send (direct_call (the (channel s)) ex rk body opt (Returns b) p) s)
                     \<lparr>channelHasRoom := b\<rparr>)
            | Throws e \<Rightarrow>
                settle p (Rejected e)
                  (log_send (direct_call (the (channel s)) ex rk body opt (Throws e) p) s))
         else
           enqueueMessage
             \<lparr>exchange = ex, routingKey = rk, content = body, options = Some opts,
              promise = p, isTimedout = False\<rparr> s)"

definition queueLength :: "wrapper \<Rightarrow> nat" where
  "queueLength s = length (messages s)"

definition shouldPublish :: "wrapper \<Rightarrow> bool" where
  "shouldPublish s =
     (length (messages s) > 0 \<and> \<not> settingUp s \<and> channel s \<noteq> None \<and> channelHasRoom s)"

text \<open>
  The \<^verbatim>\<open>while\<close> loop of \<^verbatim>\<open>_publishExchangeMessages\<close>, by recursion on
  \<^verbatim>\<open>sendsLeft\<close>. The result is the error thrown by \<^verbatim>\<open>channel.publish\<close>, if any, and
  the state the loop was left in.
\<close>

fun drain :: "(nat \<Rightarrow> pub_result) \<Rightarrow> chan \<Rightarrow> nat \<Rightarrow> wrapper \<Rightarrow> error_obj option \<times> wrapper" where
  "drain pub ch 0 s = (None, s)"
| "drain pub ch (Suc sendsLeft) s =
     (if channelHasRoom s \<and> length (messages s) > 0 then
        (case messages s of
           [] \<Rightarrow> (None, s)
         | m # rest \<Rightarrow>
             (let s1 = s\<lparr>messages := rest\<rparr> in
              case pub (length (sent s1)) of
                Returns thisCanSend \<Rightarrow>
                  drain pub ch sendsLeft
                    (settle (promise m) (Resolved thisCanSend)
                       ((log_send (queued_call ch m (Returns thisCanSend)) s1)
                          \<lparr>channelHasRoom := thisCanSend\<rparr>))
              | Throws err \<Rightarrow> (Some err, log_send (queued_call ch m (Throws err)) s1)))
      else (None, s))"

text \<open>
  \<^verbatim>\<open>_publishExchangeMessages(workerNumber)\<close>: one turn of the worker.
  \<^verbatim>\<open>setImmediate\<close> appends the worker number to \<open>immediates\<close>.
\<close>

definition publishExchangeMessages :: "(nat \<Rightarrow> pub_result) \<Rightarrow> nat \<Rightarrow> wrapper \<Rightarrow> wrapper" where
  "publishExchangeMessages pub wn s =
     (if channel s = None \<or> \<not> shouldPublish s \<or> \<not> working s \<or> wn \<noteq> workerNumber s then
        s\<lparr>working := False\<rparr>
      else
        (case drain pub (the (channel s)) MAX_MESSAGES_PER_BATCH s of
           (None, s1) \<Rightarrow>
             if channelHasRoom s1 \<and> length (messages s1) > 0 then
               s1\<lparr>immediates := immediates s1 @ [wn]\<rparr>
             else s1\<lparr>working := False\<rparr>
         | (Some err, s1) \<Rightarrow> emit (ErrorEv err) (s1\<lparr>working := False\<rparr>)))"

definition startWorker :: "(nat \<Rightarrow> pub_result) \<Rightarrow> wrapper \<Rightarrow> wrapper" where
  "startWorker pub s =
     (if \<not> working s \<and> shouldPublish s then
        (let s1 = s\<lparr>working := True\<rparr>;
             s2 = s1\<lparr>workerNumber := Suc (workerNumber s1)\<rparr>
         in publishExchangeMessages pub (workerNumber s2) s2)
      else s)"

subsection \<open>Channel events, disconnect, close\<close>

definition onChannelClose :: "chan \<Rightarrow> wrapper \<Rightarrow> wrapper" where
  "onChannelClose ch s = (if channel s = Some ch then s\<lparr>channel := None\<rparr> else s)"

definition onChannelDrain :: "(nat \<Rightarrow> pub_result) \<Rightarrow> wrapper \<Rightarrow> wrapper" where
  "onChannelDrain pub s = startWorker pub (s\<lparr>channelHasRoom := True\<rparr>)"

definition onDisconnect :: "wrapper \<Rightarrow> wrapper" where
  "onDisconnect s = s\<lparr>channel := None, settingUp := False, working := False\<rparr>"

definition close :: "wrapper \<Rightarrow> wrapper" where
  "close s =
     (let s1 = s\<lparr>working := False\<rparr>;
          s2 = (if length (messages s1) \<noteq> 0
                then foldl (\<lambda>a m. settle (promise m) (Rejected channel_closed) a) s1 (messages s1)
                else s1);
          s3 = removeListener ''connect'' OnConnect s2;
          s4 = removeListener ''disconnect'' OnDisconnect s3;
          s5 = (case channel s4 of Some ch \<Rightarrow> chan_call (CloseCall ch) s4 | None \<Rightarrow> s4);
          s6 = s5\<lparr>channel := None\<rparr>
      in emit CloseEv s6)"

subsection \<open>Consumers\<close>

definition set_tag :: "nat \<Rightarrow> string option \<Rightarrow> wrapper \<Rightarrow> wrapper" where
  "set_tag c t s =
     (case consumer_objs s c of
        None \<Rightarrow> s
      | Some obj \<Rightarrow> s\<lparr>consumer_objs := (consumer_objs s)(c := Some (obj\<lparr>consumerTag := t\<rparr>))\<rparr>)"

text \<open>
  \<^verbatim>\<open>_consume(consumer)\<close> up to its \<^verbatim>\<open>await\<close>: whether \<^verbatim>\<open>channel.consume\<close> was
  called, and the state.
\<close>

definition consume_call :: "nat \<Rightarrow> wrapper \<Rightarrow> bool \<times> wrapper" where
  "consume_call c s =
     (case channel s of
        None \<Rightarrow> (False, s)
      | Some ch \<Rightarrow>
          (case consumer_objs s c of
             None \<Rightarrow> (False, s)
           | Some obj \<Rightarrow>
               (let s1 = (case prefetch obj of Some n \<Rightarrow> chan_call (Prefetch ch n) s | None \<Rightarrow> s)
                in (True, chan_call (ConsumeCall ch (queue obj) (tag_option obj) c) s1))))"

text \<open>
  \<^verbatim>\<open>_consume(consumer)\<close>, with what \<^verbatim>\<open>channel.consume\<close> settles with: the error
  the returned promise rejects with, if any, and the state.
\<close>

definition consume_inner :: "nat \<Rightarrow> consume_reply \<Rightarrow> wrapper \<Rightarrow> error_obj option \<times> wrapper" where
  "consume_inner c reply s =
     (case consume_call c s of
        (False, s1) \<Rightarrow> (None, s1)
      | (True, s1) \<Rightarrow>
          (case reply of
             Subscribed t \<Rightarrow> (None, set_tag c (Some t) s1)
           | Refused e \<Rightarrow> (Some e, s1)))"

definition reconnectConsumer :: "nat \<Rightarrow> consume_reply \<Rightarrow> wrapper \<Rightarrow> error_obj option \<times> wrapper" where
  "reconnectConsumer c reply s =
     (if c \<notin> set (consumers s) then (None, s) else consume_inner c reply s)"

text \<open>
  The handler given to \<^verbatim>\<open>channel.consume\<close>, called with \<^verbatim>\<open>null\<close>: the broker
  cancelled consumer \<open>c\<close>.
\<close>

definition broker_cancel :: "nat \<Rightarrow> consume_reply \<Rightarrow> wrapper \<Rightarrow> wrapper" where
  "broker_cancel c reply s =
     (case reconnectConsumer c reply (set_tag c None s) of
        (None, s1) \<Rightarrow> s1
      | (Some err, s1) \<Rightarrow> if err_code err = Some 404 then s1 else emit (ErrorEv err) s1)"

text \<open>
  \<^verbatim>\<open>consume(queue, onMessage, options)\<close> after its first two \<^verbatim>\<open>await\<close>s; \<open>rnd\<close>
  is the hex string of \<^verbatim>\<open>randomBytes(16)\<close>. A rejection goes to the caller.
\<close>

definition consume ::
  "string \<Rightarrow> string option \<Rightarrow> nat option \<Rightarrow> string \<Rightarrow> consume_reply \<Rightarrow> wrapper \<Rightarrow> wrapper"
where
  "consume q opt_tag pre rnd reply s =
     (let tag = (case opt_tag of None \<Rightarrow> rnd | Some t \<Rightarrow> if t = [] then rnd else t);
          c = allocated s;
          obj = \<lparr>consumerTag = None, queue = q, prefetch = pre, tag_option = tag\<rparr>;
          s1 = s\<lparr>allocated := Suc c, consumer_objs := (consumer_objs s)(c := Some obj)\<rparr>;
          s2 = s1\<lparr>consumers := consumers s1 @ [c]\<rparr>
      in snd (consume_inner c reply s2))"

text \<open>The tags \<^verbatim>\<open>cancelAll\<close> and \<^verbatim>\<open>cancel\<close> pass to \<^verbatim>\<open>channel.cancel\<close>.\<close>

definition truthy_tag :: "wrapper \<Rightarrow> nat \<Rightarrow> string option" where
  "truthy_tag s c =
     (case consumer_objs s c of
        None \<Rightarrow> None
      | Some obj \<Rightarrow> (case consumerTag obj of None \<Rightarrow> None | Some t \<Rightarrow> if t = [] then None else Some t))"

definition cancelAll :: "wrapper \<Rightarrow> wrapper" where
  "cancelAll s =
     (let cs = consumers s; s1 = s\<lparr>consumers := []\<rparr> in
      case channel s1 of
        None \<Rightarrow> s1
      | Some ch \<Rightarrow>
          foldl (\<lambda>a c. case truthy_tag a c of None \<Rightarrow> a | Some t \<Rightarrow> chan_call (CancelCall ch t) a) s1 cs)"

definition has_option_tag :: "wrapper \<Rightarrow> string \<Rightarrow> nat \<Rightarrow> bool" where
  "has_option_tag s t c = (case consumer_objs s c of None \<Rightarrow> False | Some obj \<Rightarrow> tag_option obj = t)"

definition cancel :: "string \<Rightarrow> wrapper \<Rightarrow> wrapper" where
  "cancel t s =
     (case List.find (has_option_tag s t) (consumers s) of
        None \<Rightarrow> s
      | Some c \<Rightarrow>
          (let s1 = s\<lparr>consumers := remove1 c (consumers s)\<rparr> in
           case channel s1 of
             None \<Rightarrow> s1
           | Some ch \<Rightarrow> (case truthy_tag s1 c of None \<Rightarrow> s1 | Some g \<Rightarrow> chan_call (CancelCall ch g) s1)))"

subsection \<open>Construction and connecting\<close>

text \<open>\<^verbatim>\<open>_onConnect\<close> up to \<^verbatim>\<open>await connection.createChannel()\<close>.\<close>

definition onConnect :: "wrapper \<Rightarrow> wrapper" where
  "onConnect s = s\<lparr>creating := Suc (creating s)\<rparr>"

text \<open>
  The constructor: \<open>foreign\<close> are the listeners other objects hold on the connection
  manager, \<open>connected\<close> is whether \<^verbatim>\<open>connectionManager.connection\<close> is set, \<open>setup_fn\<close> is
  \<^verbatim>\<open>options.setup\<close>.
\<close>

definition constructor :: "(string \<times> nat) list \<Rightarrow> bool \<Rightarrow> nat option \<Rightarrow> wrapper" where
  "constructor foreign connected setup_fn =
     (let s = \<lparr>settingUp = False,
               setups = (case setup_fn of None \<Rightarrow> [] | Some f \<Rightarrow> [f]),
               messages = [], consumers = [], channel = None, working = False,
               workerNumber = 0, channelHasRoom = True,
               consumer_objs = (\<lambda>c. None), allocated = 0, promises = 0,
               mgr_listeners = map (\<lambda>(ev, k). (ev, Foreign k)) foreign,
               immediates = [], creating = 0, chains = 0, opened = [],
               sent = [], settled = [], emitted = [], chan_calls = [], setup_calls = [],
               enqueued = []\<rparr>;
          s1 = (if connected then onConnect s else s)
      in addListener ''disconnect'' OnDisconnect (addListener ''connect'' OnConnect s1))"

text \<open>
  \<^verbatim>\<open>_onConnect\<close> from the moment \<^verbatim>\<open>createChannel\<close> resolves with \<open>ch\<close> to
  \<^verbatim>\<open>await this._settingUp\<close>: the setup functions are all called here.
\<close>

definition onConnect_created :: "chan \<Rightarrow> wrapper \<Rightarrow> wrapper" where
  "onConnect_created ch s =
     s\<lparr>channel := Some ch, channelHasRoom := True, opened := opened s @ [ch],
       settingUp := True,
       setup_calls := setup_calls s @ map (\<lambda>f. (f, ch)) (setups s),
       chains := Suc (chains s)\<rparr>"

text \<open>The \<^verbatim>\<open>catch\<close> block of \<^verbatim>\<open>_onConnect\<close>.\<close>

definition onConnect_catch :: "error_obj \<Rightarrow> wrapper \<Rightarrow> wrapper" where
  "onConnect_catch err s = (emit (ErrorEv err) s)\<lparr>settingUp := False, channel := None\<rparr>"

text \<open>The \<^verbatim>\<open>.catch\<close> handler put on the promise of each setup function.\<close>

definition setup_catch :: "error_obj \<Rightarrow> wrapper \<Rightarrow> wrapper" where
  "setup_catch err s =
     (if err_name err = ''IllegalOperationError'' then s else emit (ErrorEv err) s)"

fun settle_setups :: "setup_result list \<Rightarrow> wrapper \<Rightarrow> wrapper" where
  "settle_setups [] s = s"
| "settle_setups (Fulfilled # rs) s = settle_setups rs s"
| "settle_setups (Failed err # rs) s = settle_setups rs (setup_catch err s)"

text \<open>
  \<^verbatim>\<open>Promise.all(this._consumers.map((c) => this._reconnectConsumer(c)))\<close>: the first
  rejection, if any, and the state.
\<close>

fun reconnect_all :: "nat list \<Rightarrow> (nat \<Rightarrow> consume_reply) \<Rightarrow> wrapper \<Rightarrow> error_obj option \<times> wrapper" where
  "reconnect_all [] reply s = (None, s)"
| "reconnect_all (c # cs) reply s =
     (case reconnectConsumer c (reply c) s of
        (r, s1) \<Rightarrow>
          (case reconnect_all cs reply s1 of
             (r', s2) \<Rightarrow> ((case r of Some e \<Rightarrow> Some e | None \<Rightarrow> r'), s2)))"

text \<open>
  The rest of \<^verbatim>\<open>_onConnect\<close>: the setup promises settle (\<open>outs\<close>, by setup
  function), the consumers are subscribed again (\<open>reply\<close>, by consumer), and the
  method resumes after \<^verbatim>\<open>await this._settingUp\<close>.
\<close>

definition onConnect_settled ::
  "(nat \<Rightarrow> pub_result) \<Rightarrow> (nat \<Rightarrow> setup_result) \<Rightarrow> (nat \<Rightarrow> consume_reply) \<Rightarrow> wrapper \<Rightarrow> wrapper"
where
  "onConnect_settled pub outs reply s =
     (let s1 = settle_setups (map outs (setups s)) s in
      case reconnect_all (consumers s1) reply s1 of
        (Some err, s2) \<Rightarrow> onConnect_catch err s2
      | (None, s2) \<Rightarrow>
          (let s3 = s2\<lparr>settingUp := False\<rparr> in
           if channel s3 = None then s3
           else emit ConnectEv (startWorker pub s3)))"

subsection \<open>The wrapper as a transition system\<close>

datatype event =
    Publish string string string "publish_options option"
  | Consume string "string option" "nat option" string consume_reply
  | Cancel string
  | CancelAll
  | Close
  | MgrConnect
  | MgrDisconnect
  | ChannelCreated chan
  | ChannelFailed error_obj
  | SetupsSettled "nat \<Rightarrow> setup_result" "nat \<Rightarrow> consume_reply"
  | ChannelClose chan
  | ChannelDrain chan
  | BrokerCancel nat consume_reply
  | Immediate

text \<open>
  The first five events are calls of the public methods. \<open>MgrConnect\<close> and
  \<open>MgrDisconnect\<close> are the connection manager emitting \<^verbatim>\<open>'connect'\<close> and
  \<^verbatim>\<open>'disconnect'\<close>. \<open>ChannelCreated\<close> and \<open>ChannelFailed\<close> settle a pending
  \<^verbatim>\<open>createChannel\<close>; \<open>SetupsSettled\<close> settles a pending setup chain.
  \<open>ChannelClose\<close> and \<open>ChannelDrain\<close> are events of a channel the wrapper listens
  to, \<open>BrokerCancel\<close> is the broker cancelling a consumer whose handler was
  handed to a channel, and \<open>Immediate\<close> is the scheduler running the oldest
  \<^verbatim>\<open>setImmediate\<close> callback. An event that cannot happen in a state leaves it as
  it is.
\<close>

definition consume_called :: "wrapper \<Rightarrow> nat \<Rightarrow> bool" where
  "consume_called s c = list_ex (\<lambda>k. case k of ConsumeCall ch q t c' \<Rightarrow> c' = c | _ \<Rightarrow> False) (chan_calls s)"

fun step :: "(nat \<Rightarrow> pub_result) \<Rightarrow> event \<Rightarrow> wrapper \<Rightarrow> wrapper" where
  "step pub (Publish ex rk body opt) s = publish pub ex rk body opt s"
| "step pub (Consume q opt_tag pre rnd reply) s = consume q opt_tag pre rnd reply s"
| "step pub (Cancel t) s = cancel t s"
| "step pub CancelAll s = cancelAll s"
| "step pub Close s = close s"
| "step pub MgrConnect s =
     (if (''connect'', OnConnect) \<in> set (mgr_listeners s) then onConnect s else s)"
| "step pub MgrDisconnect s =
     (if (''disconnect'', OnDisconnect) \<in> set (mgr_listeners s) then onDisconnect s else s)"
| "step pub (ChannelCreated ch) s =
     (if creating s > 0 then onConnect_created ch (s\<lparr>creating := creating s - 1\<rparr>) else s)"
| "step pub (ChannelFailed err) s =
     (if creating s > 0 then onConnect_catch err (s\<lparr>creating := creating s - 1\<rparr>) else s)"
| "step pub (SetupsSettled outs reply) s =
     (if chains s > 0 then onConnect_settled pub outs reply (s\<lparr>chains := chains s - 1\<rparr>) else s)"
| "step pub (ChannelClose ch) s = (if ch \<in> set (opened s) then onChannelClose ch s else s)"
| "step pub (ChannelDrain ch) s = (if ch \<in> set (opened s) then onChannelDrain pub s else s)"
| "step pub (BrokerCancel c reply) s = (if consume_called s c then broker_cancel c reply s else s)"
| "step pub Immediate s =
     (case immediates s of
        [] \<Rightarrow> s
      | wn # rest \<Rightarrow> publishExchangeMessages pub wn (s\<lparr>immediates := rest\<rparr>))"

fun run :: "(nat \<Rightarrow> pub_result) \<Rightarrow> event list \<Rightarrow> wrapper \<Rightarrow> wrapper" where
  "run pub [] s = s"
| "run pub (e # es) s = run pub es (step pub e s)"

text \<open>The queued messages handed to a channel so far, in the order of the calls.\<close>

definition handed :: "wrapper \<Rightarrow> message list" where
  "handed s = List.map_filter pc_message (sent s)"

section \<open>Auxiliary definitions for the proofs\<close>

subsection \<open>One batch of the worker as a list function\<close>

text \<open>
  The calls of \<^verbatim>\<open>channel.publish\<close> that the loop of the worker makes with \<open>k\<close>
  sends left, when the flow-control flag is \<open>room\<close>, \<open>n\<close> calls were made before
  and the queue holds \<open>ms\<close>; then the promises these calls resolve, the flag they
  leave, and the error one of them throws.
\<close>

fun batch :: "(nat \<Rightarrow> pub_result) \<Rightarrow> chan \<Rightarrow> nat \<Rightarrow> bool \<Rightarrow> nat \<Rightarrow> message list \<Rightarrow> publish_call list" where
  "batch pub ch 0 room n ms = []"
| "batch pub ch (Suc k) room n [] = []"
| "batch pub ch (Suc k) room n (m # ms) =
     (if room then
        (case pub n of
           Returns b \<Rightarrow> queued_call ch m (Returns b) # batch pub ch k b (Suc n) ms
         | Throws e \<Rightarrow> [queued_call ch m (Throws e)])
      else [])"

fun settlements :: "publish_call list \<Rightarrow> (nat \<times> settlement) list" where
  "settlements [] = []"
| "settlements (c # cs) =
     (case pc_result c of
        Returns b \<Rightarrow> (pc_promise c, Resolved b) # settlements cs
      | Throws e \<Rightarrow> settlements cs)"

fun room_after :: "bool \<Rightarrow> publish_call list \<Rightarrow> bool" where
  "room_after r [] = r"
| "room_after r (c # cs) = room_after (case pc_result c of Returns b \<Rightarrow> b | Throws e \<Rightarrow> r) cs"

fun thrown :: "publish_call list \<Rightarrow> error_obj option" where
  "thrown [] = None"
| "thrown (c # cs) = (case pc_result c of Returns b \<Rightarrow> thrown cs | Throws e \<Rightarrow> Some e)"

subsection \<open>The error events of a setup run\<close>

text \<open>
  The errors that the \<^verbatim>\<open>.catch\<close> handlers of a list of settled setup promises pass
  to \<^verbatim>\<open>emit('error', ...)\<close>, in the order of the list.
\<close>

fun reported :: "setup_result list \<Rightarrow> error_obj list" where
  "reported [] = []"
| "reported (Fulfilled # rs) = reported rs"
| "reported (Failed err # rs) =
     (if err_name err = ''IllegalOperationError'' then reported rs else err # reported rs)"

subsection \<open>The invariant of reachable states\<close>

text \<open>
  The queued messages handed to the channel, followed by the queue, are the
  messages enqueued, in order; promise numbers grow along that list and stay
  below the number of promises created; the wrapper's two handlers are
  registered at most once.
\<close>

definition core :: "wrapper \<Rightarrow> publish_call list \<times> message list \<times> message list \<times> nat \<times> (nat \<times> settlement) list \<times> (string \<times> listener) list" where
  "core s = (sent s, messages s, enqueued s, promises s, settled s, mgr_listeners s)"

definition wrapper_inv :: "wrapper \<Rightarrow> bool" where
  "wrapper_inv s \<longleftrightarrow>
     handed s @ messages s = enqueued s \<and>
     sorted_wrt (<) (map promise (enqueued s)) \<and>
     (\<forall>m \<in> set (enqueued s). promise m < promises s) \<and>
     (\<forall>x \<in> set (settled s). fst x < promises s) \<and>
     count_list (mgr_listeners s) (''connect'', OnConnect) \<le> 1 \<and>
     count_list (mgr_listeners s) (''disconnect'', OnDisconnect) \<le> 1"

subsection \<open>Kinds of events, re-subscription, the sends of a step\<close>


fun subscribing :: "event \<Rightarrow> bool" where
  "subscribing (Consume q opt_tag pre rnd reply) = True"
| "subscribing (SetupsSettled outs reply) = True"
| "subscribing (BrokerCancel c reply) = True"
| "subscribing e = False"

definition resubscribed :: "consume_reply \<Rightarrow> consumer \<Rightarrow> consumer" where
  "resubscribed reply obj =
     (case reply of Subscribed t \<Rightarrow> obj\<lparr>consumerTag := Some t\<rparr> | Refused e \<Rightarrow> obj)"


subsection \<open>Example runs\<close>

text \<open>A channel that always has room, setups that succeed, a broker that confirms.\<close>

definition always_room :: "nat \<Rightarrow> pub_result" where
  "always_room n = Returns True"

definition all_fulfilled :: "nat \<Rightarrow> setup_result" where
  "all_fulfilled f = Fulfilled"

definition all_subscribed :: "nat \<Rightarrow> consume_reply" where
  "all_subscribed c = Subscribed ''amq.ctag''"

definition two_channels :: wrapper where
  "two_channels =
     run always_room [MgrConnect, ChannelCreated 1, MgrConnect, ChannelCreated 2]
       (constructor [] False None)"

definition queued_then_connected :: wrapper where
  "queued_then_connected =
     run always_room
       [Publish ''ex'' ''a'' ''one'' None, Publish ''ex'' ''b'' ''two'' None,
        MgrConnect, ChannelCreated 1, SetupsSettled all_fulfilled all_subscribed,
        MgrDisconnect, Publish ''ex'' ''c'' ''three'' None]
       (constructor [] False None)"

definition two_unsent :: wrapper where
  "two_unsent =
     run always_room [Publish ''ex'' ''a'' ''one'' None, Publish ''ex'' ''b'' ''two'' None]
       (constructor [] False None)"

text \<open>A channel that has room for one more message only.\<close>

definition room_once :: "nat \<Rightarrow> pub_result" where
  "room_once n = Returns (n < 1)"

text \<open>
  Three messages queued, the channel created, the setup promise cleared and the
  worker flagged active with number 1: the state in which \<^verbatim>\<open>_startWorker\<close> calls
  \<^verbatim>\<open>_publishExchangeMessages(1)\<close>.
\<close>

definition ready_worker :: wrapper where
  "ready_worker =
     (run room_once
        [Publish ''ex'' ''a'' ''one'' None, Publish ''ex'' ''b'' ''two'' None,
         Publish ''ex'' ''c'' ''three'' None, MgrConnect, ChannelCreated 1]
        (constructor [] False None))
     \<lparr>settingUp := False, working := True, workerNumber := 1\<rparr>"







text \<open>
  1001 messages queued, the channel created, the setup promise cleared and the
  worker flagged active with number 1.
\<close>

definition full_queue :: wrapper where
  "full_queue =
     (run always_room
        (replicate 1001 (Publish ''ex'' ''rk'' ''msg'' None) @ [MgrConnect, ChannelCreated 1])
        (constructor [] False None))
     \<lparr>settingUp := False, working := True, workerNumber := 1\<rparr>"

definition precondition_failed :: error_obj where
  "precondition_failed = JsError ''Error'' (Some 406) ''PRECONDITION_FAILED''"

definition illegal_operation :: error_obj where
  "illegal_operation = JsError ''IllegalOperationError'' None ''Channel closed''"

definition not_found :: error_obj where
  "not_found = JsError ''Error'' (Some 404) ''NOT_FOUND''"

text \<open>A wrapper with one setup function whose channel was just created.\<close>

definition setting_up :: wrapper where
  "setting_up =
     run always_room [Publish ''ex'' ''a'' ''one'' None, MgrConnect, ChannelCreated 1]
       (constructor [] False (Some 7))"

text \<open>A consumer subscribed on channel 1; then the connection, or the channel, is lost.\<close>

definition subscribed :: wrapper where
  "subscribed =
     run always_room
       [MgrConnect, ChannelCreated 1, SetupsSettled all_fulfilled all_subscribed,
        Consume ''jobs'' None (Some 10) ''abc123'' (Subscribed ''abc123'')]
       (constructor [] False None)"

definition subscribed_then_lost :: wrapper where
  "subscribed_then_lost =
     run always_room
       [MgrConnect, ChannelCreated 1, SetupsSettled all_fulfilled all_subscribed,
        Consume ''jobs'' None (Some 10) ''abc123'' (Subscribed ''abc123''),
        MgrDisconnect]
       (constructor [] False None)"

definition subscribed_then_closed :: wrapper where
  "subscribed_then_closed =
     run always_room
       [MgrConnect, ChannelCreated 1, SetupsSettled all_fulfilled all_subscribed,
        Consume ''jobs'' None (Some 10) ''abc123'' (Subscribed ''abc123''),
        ChannelClose 1]
       (constructor [] False None)"

text \<open>
  The same consumer after a disconnect and a second connection, whose channel was
  just created.
\<close>

definition reconnecting :: wrapper where
  "reconnecting =
     run always_room
       [MgrConnect, ChannelCreated 1, SetupsSettled all_fulfilled all_subscribed,
        Consume ''jobs'' None (Some 10) ''abc123'' (Subscribed ''abc123''),
        MgrDisconnect, MgrConnect, ChannelCreated 2]
       (constructor [] False None)"





section \<open>Lemmas\<close>

lemmas small_defs = settle_def emit_def chan_call_def addListener_def removeListener_def
  enqueueMessage_def log_send_def

lemma drain_batch:
  "drain pub ch k s =
     (let B = batch pub ch k (channelHasRoom s) (length (sent s)) (messages s) in
      (thrown B,
       s\<lparr>messages := drop (length B) (messages s), channelHasRoom := room_after (channelHasRoom s) B,
         sent := sent s @ B, settled := settled s @ settlements B\<rparr>))"
proof (induction k arbitrary: s)
  case 0
  then show ?case by simp
next
  case (Suc k)
  show ?case
  proof (cases "messages s")
    case Nil
    then show ?thesis by simp
  next
    case (Cons m rest)
    show ?thesis
    proof (cases "channelHasRoom s")
      case False
      then show ?thesis using Cons by simp
    next
      case True
      show ?thesis
      proof (cases "pub (length (sent s))")
        case (Returns b)
        then show ?thesis using Cons True
          by (simp add: Suc.IH Let_def small_defs queued_call_def)
      next
        case (Throws e)
        then show ?thesis using Cons True
          by (simp add: Let_def small_defs queued_call_def)
      qed
    qed
  qed
qed

lemma batch_no_room [simp]: "batch pub ch k False n ms = []"
  by (cases k; cases ms) auto

lemma batch_nonempty_room: "batch pub ch k room n ms \<noteq> [] \<Longrightarrow> room"
  by (cases room) simp_all

lemma batch_length: "length (batch pub ch k room n ms) \<le> k"
  by (induction pub ch k room n ms rule: batch.induct) (auto split: pub_result.splits)

lemma batch_messages:
  "map pc_message (batch pub ch k room n ms) = map Some (take (length (batch pub ch k room n ms)) ms)"
  by (induction pub ch k room n ms rule: batch.induct)
     (auto simp: queued_call_def split: pub_result.splits)

lemma map_filter_map_Some: "List.map_filter f xs = ys" if "map f xs = map Some ys"
  using that by (induction xs arbitrary: ys) auto

lemma batch_handed:
  "List.map_filter pc_message (batch pub ch k room n ms) = take (length (batch pub ch k room n ms)) ms"
  by (rule map_filter_map_Some) (rule batch_messages)


lemma batch_room:
  "Suc i < length (batch pub ch k room n ms) \<Longrightarrow>
     pc_result (batch pub ch k room n ms ! i) = Returns True"
proof (induction pub ch k room n ms arbitrary: i rule: batch.induct)
  case (3 pub ch k room n m ms)
  show ?case
  proof (cases "pub n")
    case (Returns b)
    with "3.prems" have r: room and len: "i < length (batch pub ch k b (Suc n) ms)"
      by (auto split: if_splits)
    show ?thesis
    proof (cases i)
      case 0
      from len have "batch pub ch k b (Suc n) ms \<noteq> []" by auto
      then have b by (cases k; cases ms) (auto split: if_splits)
      then show ?thesis using 0 r Returns by (simp add: queued_call_def)
    next
      case (Suc j)
      then show ?thesis using "3.IH"[OF r Returns, of j] "3.prems" r Returns by simp
    qed
  next
    case (Throws e)
    with "3.prems" show ?thesis by (auto split: if_splits)
  qed
qed simp_all

lemma batch_stops:
  "thrown (batch pub ch k room n ms) = None \<Longrightarrow> length (batch pub ch k room n ms) < k \<Longrightarrow>
     \<not> room_after room (batch pub ch k room n ms) \<or> drop (length (batch pub ch k room n ms)) ms = []"
  by (induction pub ch k room n ms rule: batch.induct)
     (auto simp: queued_call_def split: pub_result.splits if_splits)

lemma batch_room_after:
  "thrown (batch pub ch k room n ms) = None \<Longrightarrow> batch pub ch k room n ms \<noteq> [] \<Longrightarrow>
     pc_result (last (batch pub ch k room n ms)) = Returns (room_after room (batch pub ch k room n ms))"
  by (induction pub ch k room n ms rule: batch.induct)
     (auto simp: queued_call_def split: pub_result.splits if_splits)

lemma batch_thrown:
  "thrown (batch pub ch k room n ms) = Some e \<Longrightarrow>
     batch pub ch k room n ms \<noteq> [] \<and> pc_result (last (batch pub ch k room n ms)) = Throws e"
  by (induction pub ch k room n ms rule: batch.induct)
     (auto simp: queued_call_def split: pub_result.splits if_splits dest: batch_nonempty_room)

lemma settlements_promises:
  "fst ` set (settlements (batch pub ch k room n ms)) \<subseteq> promise ` set ms"
  by (induction pub ch k room n ms rule: batch.induct)
     (auto simp: queued_call_def split: pub_result.splits if_splits)

lemma batch_all_room:
  "\<forall>j. pub j = Returns True \<Longrightarrow>
     batch pub ch k True n ms = map (\<lambda>m. queued_call ch m (Returns True)) (take k ms)"
  by (induction pub ch k "True" n ms rule: batch.induct) auto

lemma invD:
  assumes "wrapper_inv s"
  shows "handed s @ messages s = enqueued s"
    and "sorted_wrt (<) (map promise (enqueued s))"
    and "\<And>m. m \<in> set (enqueued s) \<Longrightarrow> promise m < promises s"
    and "\<And>x. x \<in> set (settled s) \<Longrightarrow> fst x < promises s"
    and "count_list (mgr_listeners s) (''connect'', OnConnect) \<le> 1"
    and "count_list (mgr_listeners s) (''disconnect'', OnDisconnect) \<le> 1"
  using assms unfolding wrapper_inv_def by blast+

lemma invI:
  assumes "handed s @ messages s = enqueued s"
    and "sorted_wrt (<) (map promise (enqueued s))"
    and "\<And>m. m \<in> set (enqueued s) \<Longrightarrow> promise m < promises s"
    and "\<And>x. x \<in> set (settled s) \<Longrightarrow> fst x < promises s"
    and "count_list (mgr_listeners s) (''connect'', OnConnect) \<le> 1"
    and "count_list (mgr_listeners s) (''disconnect'', OnDisconnect) \<le> 1"
  shows "wrapper_inv s"
  using assms unfolding wrapper_inv_def by blast

lemma inv_core: "wrapper_inv s \<Longrightarrow> core s' = core s \<Longrightarrow> wrapper_inv s'"
  by (simp add: core_def wrapper_inv_def handed_def)

lemma map_filter_append: "List.map_filter f (xs @ ys) = List.map_filter f xs @ List.map_filter f ys"
  by (simp add: map_filter_def)

lemma inv_drain:
  assumes "wrapper_inv s"
  shows "wrapper_inv (snd (drain pub ch k s))"
proof -
  let ?B = "batch pub ch k (channelHasRoom s) (length (sent s)) (messages s)"
  let ?s = "snd (drain pub ch k s)"
  have flds: "sent ?s = sent s @ ?B" "messages ?s = drop (length ?B) (messages s)"
    "enqueued ?s = enqueued s" "promises ?s = promises s"
    "settled ?s = settled s @ settlements ?B" "mgr_listeners ?s = mgr_listeners s"
    by (simp_all add: drain_batch Let_def)
  have "handed ?s = handed s @ take (length ?B) (messages s)"
    by (simp add: flds handed_def map_filter_append batch_handed)
  then have fifo: "handed ?s @ messages ?s = enqueued ?s"
    using invD(1)[OF assms] by (simp add: flds)
  have sub: "set (messages s) \<subseteq> set (enqueued s)"
    using invD(1)[OF assms] by (metis set_append sup_ge2)
  have st: "fst x < promises ?s" if "x \<in> set (settled ?s)" for x
  proof (cases "x \<in> set (settled s)")
    case True
    then show ?thesis using invD(4)[OF assms] by (simp add: flds)
  next
    case False
    with that have "x \<in> set (settlements ?B)" by (simp add: flds)
    then have "fst x \<in> promise ` set (messages s)"
      using settlements_promises[of pub ch k "channelHasRoom s" "length (sent s)" "messages s"]
      by blast
    then obtain m where "m \<in> set (enqueued s)" "fst x = promise m" using sub by blast
    then show ?thesis using invD(3)[OF assms] by (simp add: flds)
  qed
  show ?thesis
  proof (rule invI)
    show "handed ?s @ messages ?s = enqueued ?s" by (rule fifo)
    show "sorted_wrt (<) (map promise (enqueued ?s))" using invD(2)[OF assms] by (simp add: flds)
    show "\<And>m. m \<in> set (enqueued ?s) \<Longrightarrow> promise m < promises ?s"
      using invD(3)[OF assms] by (simp add: flds)
    show "\<And>x. x \<in> set (settled ?s) \<Longrightarrow> fst x < promises ?s" by (rule st)
    show "count_list (mgr_listeners ?s) (''connect'', OnConnect) \<le> 1"
      using invD(5)[OF assms] by (simp add: flds)
    show "count_list (mgr_listeners ?s) (''disconnect'', OnDisconnect) \<le> 1"
      using invD(6)[OF assms] by (simp add: flds)
  qed
qed

lemma core_publishExchangeMessages:
  "core (publishExchangeMessages pub wn s) = core s \<or>
   core (publishExchangeMessages pub wn s) =
     core (snd (drain pub (the (channel s)) MAX_MESSAGES_PER_BATCH s))"
proof (cases "drain pub (the (channel s)) MAX_MESSAGES_PER_BATCH s")
  case (Pair r s1)
  show ?thesis
  proof (cases r)
    case None
    then show ?thesis unfolding publishExchangeMessages_def Pair
      by (simp add: core_def)
  next
    case (Some e)
    then show ?thesis unfolding publishExchangeMessages_def Pair
      by (simp add: core_def emit_def)
  qed
qed

lemma inv_publishExchangeMessages:
  assumes "wrapper_inv s"
  shows "wrapper_inv (publishExchangeMessages pub wn s)"
proof -
  consider "core (publishExchangeMessages pub wn s) = core s"
    | "core (publishExchangeMessages pub wn s) =
         core (snd (drain pub (the (channel s)) MAX_MESSAGES_PER_BATCH s))"
    using core_publishExchangeMessages[of pub wn s] by blast
  then show ?thesis
  proof cases
    case 1
    then show ?thesis using assms by (rule inv_core[rotated])
  next
    case 2
    then show ?thesis using inv_drain[OF assms] by (rule inv_core[rotated])
  qed
qed

lemma inv_startWorker:
  assumes "wrapper_inv s"
  shows "wrapper_inv (startWorker pub s)"
proof -
  have "wrapper_inv (s\<lparr>working := True, workerNumber := Suc (workerNumber s)\<rparr>)"
    using assms by (rule inv_core) (simp add: core_def)
  then have "wrapper_inv (publishExchangeMessages pub (Suc (workerNumber s))
      (s\<lparr>working := True, workerNumber := Suc (workerNumber s)\<rparr>))"
    by (rule inv_publishExchangeMessages)
  then show ?thesis using assms unfolding startWorker_def Let_def
    by simp
qed

lemma inv_publish:
  assumes "wrapper_inv s"
  shows "wrapper_inv (publish pub ex rk body opt s)"
proof -
  let ?p = "promises s"
  let ?s' = "publish pub ex rk body opt s"
  have a: "promise m < Suc ?p" if "m \<in> set (enqueued s)" for m
    using invD(3)[OF assms that] by simp
  have b: "fst x < Suc ?p" if "x \<in> set (settled s)" for x
    using invD(4)[OF assms that] by simp
  show ?thesis
  proof (cases "\<not> settingUp s \<and> channel s \<noteq> None \<and> channelHasRoom s")
    case True
    have flds: "handed ?s' = handed s" "messages ?s' = messages s" "enqueued ?s' = enqueued s"
      "promises ?s' = Suc ?p" "mgr_listeners ?s' = mgr_listeners s"
      using True unfolding publish_def Let_def
      by (cases "pub (length (sent s))";
          simp add: handed_def small_defs direct_call_def map_filter_append map_filter_simps)+
    have st: "\<exists>r. settled ?s' = settled s @ [(?p, r)]"
      using True unfolding publish_def Let_def
      by (cases "pub (length (sent s))"; simp add: small_defs)
    show ?thesis
    proof (rule invI)
      show "handed ?s' @ messages ?s' = enqueued ?s'" using invD(1)[OF assms] by (simp add: flds)
      show "sorted_wrt (<) (map promise (enqueued ?s'))" using invD(2)[OF assms] by (simp add: flds)
      show "\<And>m. m \<in> set (enqueued ?s') \<Longrightarrow> promise m < promises ?s'"
        using a by (simp add: flds)
      show "\<And>x. x \<in> set (settled ?s') \<Longrightarrow> fst x < promises ?s'"
        using b st by (auto simp: flds)
      show "count_list (mgr_listeners ?s') (''connect'', OnConnect) \<le> 1"
        using invD(5)[OF assms] by (simp add: flds)
      show "count_list (mgr_listeners ?s') (''disconnect'', OnDisconnect) \<le> 1"
        using invD(6)[OF assms] by (simp add: flds)
    qed
  next
    case False
    let ?m = "\<lparr>exchange = ex, routingKey = rk, content = body,
         options = Some (case opt of None \<Rightarrow> [] | Some v \<Rightarrow> v),
         promise = ?p, isTimedout = False\<rparr>"
    have eq: "?s' = enqueueMessage ?m (s\<lparr>promises := Suc ?p\<rparr>)"
      using False unfolding publish_def Let_def by auto
    have flds: "handed ?s' = handed s" "messages ?s' = messages s @ [?m]"
      "enqueued ?s' = enqueued s @ [?m]"
      "promises ?s' = Suc ?p" "mgr_listeners ?s' = mgr_listeners s"
      "settled ?s' = settled s"
      unfolding eq by (simp_all add: handed_def enqueueMessage_def)
    show ?thesis
    proof (rule invI)
      show "handed ?s' @ messages ?s' = enqueued ?s'" using invD(1)[OF assms] by (simp add: flds)
      show "sorted_wrt (<) (map promise (enqueued ?s'))"
        using invD(2,3)[OF assms] by (simp add: flds sorted_wrt_append)
      show "\<And>m. m \<in> set (enqueued ?s') \<Longrightarrow> promise m < promises ?s'"
        using a by (auto simp: flds)
      show "\<And>x. x \<in> set (settled ?s') \<Longrightarrow> fst x < promises ?s'"
        using b by (simp add: flds)
      show "count_list (mgr_listeners ?s') (''connect'', OnConnect) \<le> 1"
        using invD(5)[OF assms] by (simp add: flds)
      show "count_list (mgr_listeners ?s') (''disconnect'', OnDisconnect) \<le> 1"
        using invD(6)[OF assms] by (simp add: flds)
    qed
  qed
qed

lemma foldl_reject:
  "foldl (\<lambda>a m. settle (promise m) r a) s ms = s\<lparr>settled := settled s @ map (\<lambda>m. (promise m, r)) ms\<rparr>"
  by (induction ms arbitrary: s) (simp_all add: settle_def)

lemma close_fields:
  "sent (close s) = sent s" "messages (close s) = messages s" "enqueued (close s) = enqueued s"
  "promises (close s) = promises s"
  "settled (close s) = settled s @ map (\<lambda>m. (promise m, Rejected channel_closed)) (messages s)"
  "mgr_listeners (close s) =
     rev (remove1 (''disconnect'', OnDisconnect) (remove1 (''connect'', OnConnect) (rev (mgr_listeners s))))"
  "channel (close s) = None" "working (close s) = False"
  "emitted (close s) = emitted s @ [CloseEv]"
  unfolding close_def Let_def foldl_reject
  by (simp_all add: small_defs split: option.splits)

lemma count_remove1_le: "count_list (remove1 x xs) y \<le> count_list xs y"
  by (induction xs) auto

lemma inv_close:
  assumes "wrapper_inv s"
  shows "wrapper_inv (close s)"
proof (rule invI)
  show "handed (close s) @ messages (close s) = enqueued (close s)"
    using invD(1)[OF assms] by (simp add: close_fields handed_def)
  show "sorted_wrt (<) (map promise (enqueued (close s)))"
    using invD(2)[OF assms] by (simp add: close_fields)
  show "\<And>m. m \<in> set (enqueued (close s)) \<Longrightarrow> promise m < promises (close s)"
    using invD(3)[OF assms] by (simp add: close_fields)
  have sub: "set (messages s) \<subseteq> set (enqueued s)"
    using invD(1)[OF assms] by (metis set_append sup_ge2)
  show "\<And>x. x \<in> set (settled (close s)) \<Longrightarrow> fst x < promises (close s)"
    using invD(3,4)[OF assms] sub by (auto simp: close_fields)
  have c: "count_list (mgr_listeners (close s)) y \<le> count_list (mgr_listeners s) y" for y
  proof -
    have "count_list (mgr_listeners (close s)) y =
        count_list (remove1 (''disconnect'', OnDisconnect)
          (remove1 (''connect'', OnConnect) (rev (mgr_listeners s)))) y"
      by (simp add: close_fields)
    also have "\<dots> \<le> count_list (remove1 (''connect'', OnConnect) (rev (mgr_listeners s))) y"
      by (rule count_remove1_le)
    also have "\<dots> \<le> count_list (rev (mgr_listeners s)) y"
      by (rule count_remove1_le)
    finally show ?thesis by simp
  qed
  show "count_list (mgr_listeners (close s)) (''connect'', OnConnect) \<le> 1"
    using invD(5)[OF assms] c[of "(''connect'', OnConnect)"] by simp
  show "count_list (mgr_listeners (close s)) (''disconnect'', OnDisconnect) \<le> 1"
    using invD(6)[OF assms] c[of "(''disconnect'', OnDisconnect)"] by simp
qed

lemma core_update [simp]:
  "core (s\<lparr>settingUp := a1\<rparr>) = core s"
  "core (s\<lparr>setups := a2\<rparr>) = core s"
  "core (s\<lparr>consumers := a3\<rparr>) = core s"
  "core (s\<lparr>channel := a4\<rparr>) = core s"
  "core (s\<lparr>working := a5\<rparr>) = core s"
  "core (s\<lparr>workerNumber := a6\<rparr>) = core s"
  "core (s\<lparr>channelHasRoom := a7\<rparr>) = core s"
  "core (s\<lparr>consumer_objs := a8\<rparr>) = core s"
  "core (s\<lparr>allocated := a9\<rparr>) = core s"
  "core (s\<lparr>immediates := b1\<rparr>) = core s"
  "core (s\<lparr>creating := b2\<rparr>) = core s"
  "core (s\<lparr>chains := b3\<rparr>) = core s"
  "core (s\<lparr>opened := b4\<rparr>) = core s"
  "core (s\<lparr>emitted := b5\<rparr>) = core s"
  "core (s\<lparr>chan_calls := b6\<rparr>) = core s"
  "core (s\<lparr>setup_calls := b7\<rparr>) = core s"
  by (simp_all add: core_def)

lemma core_small [simp]:
  "core (emit ev s) = core s"
  "core (chan_call c s) = core s"
  "core (set_tag k t s) = core s"
  "core (onChannelClose ch s) = core s"
  "core (onDisconnect s) = core s"
  "core (onConnect s) = core s"
  "core (onConnect_created ch s) = core s"
  "core (onConnect_catch err s) = core s"
  "core (setup_catch err s) = core s"
  by (simp_all add: emit_def chan_call_def set_tag_def onChannelClose_def
      onDisconnect_def onConnect_def onConnect_created_def onConnect_catch_def setup_catch_def
      split: option.splits)

lemma core_consume_call [simp]: "core (snd (consume_call c s)) = core s"
  by (simp add: consume_call_def Let_def split: option.splits)

lemma core_consume_inner [simp]: "core (snd (consume_inner c reply s)) = core s"
proof (cases "consume_call c s")
  case (Pair called s1)
  then have "core s1 = core s" using core_consume_call[of c s] by simp
  then show ?thesis unfolding consume_inner_def Pair
    by (cases called; cases reply) simp_all
qed

lemma core_reconnectConsumer [simp]: "core (snd (reconnectConsumer c reply s)) = core s"
  by (simp add: reconnectConsumer_def)

lemma core_broker_cancel [simp]: "core (broker_cancel c reply s) = core s"
proof (cases "reconnectConsumer c reply (set_tag c None s)")
  case (Pair r s1)
  then have "core s1 = core s" using core_reconnectConsumer[of c reply "set_tag c None s"] by simp
  then show ?thesis unfolding broker_cancel_def Pair by (cases r) simp_all
qed

lemma core_consume [simp]: "core (consume q opt_tag pre rnd reply s) = core s"
  unfolding consume_def Let_def by simp

lemma core_foldl_cancel:
  "core (foldl (\<lambda>a c. case truthy_tag a c of None \<Rightarrow> a | Some t \<Rightarrow> chan_call (CancelCall ch t) a) s cs) = core s"
  by (induction cs arbitrary: s) (simp_all split: option.splits)

lemma core_cancelAll [simp]: "core (cancelAll s) = core s"
  unfolding cancelAll_def Let_def
  by (simp add: core_foldl_cancel split: option.splits)

lemma core_cancel [simp]: "core (cancel t s) = core s"
  unfolding cancel_def Let_def
  by (simp split: option.splits)

lemma core_settle_setups [simp]: "core (settle_setups rs s) = core s"
  by (induction rs s rule: settle_setups.induct) simp_all

lemma core_reconnect_all [simp]: "core (snd (reconnect_all cs reply s)) = core s"
proof (induction cs arbitrary: s)
  case Nil
  then show ?case by simp
next
  case (Cons c cs)
  obtain r s1 where a: "reconnectConsumer c (reply c) s = (r, s1)"
    by (cases "reconnectConsumer c (reply c) s") auto
  obtain r' s2 where b: "reconnect_all cs reply s1 = (r', s2)"
    by (cases "reconnect_all cs reply s1") auto
  have "core s1 = core s" using core_reconnectConsumer[of c "reply c" s] a by simp
  moreover have "core s2 = core s1" using Cons.IH[of s1] b by simp
  ultimately show ?case by (simp add: a b)
qed

lemma inv_onChannelDrain: "wrapper_inv s \<Longrightarrow> wrapper_inv (onChannelDrain pub s)"
  unfolding onChannelDrain_def
  by (rule inv_startWorker) (erule inv_core, simp)

lemma inv_onConnect_settled:
  assumes "wrapper_inv s"
  shows "wrapper_inv (onConnect_settled pub outs reply s)"
proof -
  let ?s1 = "settle_setups (map outs (setups s)) s"
  obtain r s2 where a: "reconnect_all (consumers ?s1) reply ?s1 = (r, s2)"
    by (cases "reconnect_all (consumers ?s1) reply ?s1") auto
  have "core s2 = core s"
    using core_reconnect_all[of "consumers ?s1" reply ?s1] a by simp
  then have i2: "wrapper_inv s2" using assms inv_core by blast
  have i3: "wrapper_inv (s2\<lparr>settingUp := False\<rparr>)"
    using i2 by (rule inv_core) simp
  have i4: "wrapper_inv (emit ConnectEv (startWorker pub (s2\<lparr>settingUp := False\<rparr>)))"
    using inv_startWorker[OF i3] by (rule inv_core) simp
  have i5: "wrapper_inv (onConnect_catch err s2)" for err
    using i2 by (rule inv_core) simp
  show ?thesis unfolding onConnect_settled_def Let_def a
    using i3 i4 i5 by (cases r) simp_all
qed

lemma inv_step: "wrapper_inv s \<Longrightarrow> wrapper_inv (step pub e s)"
proof (cases e)
  case (Publish ex rk body opt)
  assume "wrapper_inv s" then show ?thesis unfolding Publish by (simp add: inv_publish)
next
  case (SetupsSettled outs reply)
  assume i: "wrapper_inv s"
  have "wrapper_inv (s\<lparr>chains := chains s - 1\<rparr>)"
    using i by (rule inv_core) simp
  then show ?thesis using i unfolding SetupsSettled by (simp add: inv_onConnect_settled)
next
  case (ChannelDrain ch)
  assume "wrapper_inv s" then show ?thesis unfolding ChannelDrain by (simp add: inv_onChannelDrain)
next
  case Immediate
  assume i: "wrapper_inv s"
  show ?thesis
  proof (cases "immediates s")
    case Nil
    then show ?thesis using i unfolding Immediate by simp
  next
    case (Cons wn rest)
    have "wrapper_inv (s\<lparr>immediates := rest\<rparr>)"
      using i by (rule inv_core) simp
    then show ?thesis unfolding Immediate using Cons by (simp add: inv_publishExchangeMessages)
  qed
next
  case Close
  assume "wrapper_inv s" then show ?thesis unfolding Close by (simp add: inv_close)
next
  case (ChannelCreated ch)
  assume i: "wrapper_inv s"
  have "core (onConnect_created ch (s\<lparr>creating := creating s - 1\<rparr>)) = core s"
    by simp
  then show ?thesis using i inv_core unfolding ChannelCreated by auto
next
  case (ChannelFailed err)
  assume i: "wrapper_inv s"
  have "core (onConnect_catch err (s\<lparr>creating := creating s - 1\<rparr>)) = core s"
    by simp
  then show ?thesis using i inv_core unfolding ChannelFailed by auto
qed (auto elim: inv_core)

lemma inv_run: "wrapper_inv s \<Longrightarrow> wrapper_inv (run pub evs s)"
  by (induction evs arbitrary: s) (simp_all add: inv_step)

lemma count_foreign:
  "count_list (map (\<lambda>(ev, k). (ev, Foreign k)) foreign) (e, OnConnect) = 0"
  "count_list (map (\<lambda>(ev, k). (ev, Foreign k)) foreign) (e, OnDisconnect) = 0"
  by (induction foreign) auto

lemma constructor_fields:
  "sent (constructor foreign connected setup_fn) = []"
  "messages (constructor foreign connected setup_fn) = []"
  "enqueued (constructor foreign connected setup_fn) = []"
  "settled (constructor foreign connected setup_fn) = []"
  "promises (constructor foreign connected setup_fn) = 0"
  "mgr_listeners (constructor foreign connected setup_fn) =
     map (\<lambda>(ev, k). (ev, Foreign k)) foreign @ [(''connect'', OnConnect), (''disconnect'', OnDisconnect)]"
  "channel (constructor foreign connected setup_fn) = None"
  "settingUp (constructor foreign connected setup_fn) = False"
  "working (constructor foreign connected setup_fn) = False"
  "workerNumber (constructor foreign connected setup_fn) = 0"
  "channelHasRoom (constructor foreign connected setup_fn) = True"
  "immediates (constructor foreign connected setup_fn) = []"
  "consumers (constructor foreign connected setup_fn) = []"
  "setups (constructor foreign connected setup_fn) = (case setup_fn of None \<Rightarrow> [] | Some f \<Rightarrow> [f])"
  "creating (constructor foreign connected setup_fn) = (if connected then 1 else 0)"
  "chains (constructor foreign connected setup_fn) = 0"
  "emitted (constructor foreign connected setup_fn) = []"
  "chan_calls (constructor foreign connected setup_fn) = []"
  by (simp_all add: constructor_def Let_def addListener_def onConnect_def)

lemma inv_constructor: "wrapper_inv (constructor foreign connected setup_fn)"
  by (rule invI) (simp_all add: constructor_fields handed_def count_foreign map_filter_simps)

lemma inv_reachable: "wrapper_inv (run pub evs (constructor foreign connected setup_fn))"
  by (rule inv_run) (rule inv_constructor)

lemma batch_numeral:
  "batch pub ch (numeral k) room n [] = []"
  "batch pub ch (numeral k) room n (m # ms) =
     (if room then
        (case pub n of
           Returns b \<Rightarrow> queued_call ch m (Returns b) # batch pub ch (pred_numeral k) b (Suc n) ms
         | Throws e \<Rightarrow> [queued_call ch m (Throws e)])
      else [])"
  by (simp_all add: numeral_eq_Suc)

lemmas eval_defs = small_defs direct_call_def queued_call_def publish_def queueLength_def
  shouldPublish_def publishExchangeMessages_def startWorker_def onChannelClose_def
  onChannelDrain_def onDisconnect_def close_def set_tag_def consume_call_def consume_inner_def
  reconnectConsumer_def broker_cancel_def consume_def truthy_tag_def cancelAll_def
  has_option_tag_def cancel_def onConnect_def constructor_def onConnect_created_def
  onConnect_catch_def setup_catch_def onConnect_settled_def consume_called_def
  MAX_MESSAGES_PER_BATCH_def drain_batch batch_numeral always_room_def all_fulfilled_def all_subscribed_def
  Let_def handed_def map_filter_simps promise_state_def channel_closed_def

lemma two_channels_channel: "channel two_channels = Some 2"
  by (simp add: two_channels_def eval_defs)

lemma queued_then_connected_fields:
  "map promise (handed queued_then_connected) = [0, 1]"
  "map promise (messages queued_then_connected) = [2]"
  "map promise (enqueued queued_then_connected) = [0, 1, 2]"
  "map fst (settled queued_then_connected) = [0, 1]"
  "mgr_listeners queued_then_connected = [(''connect'', OnConnect), (''disconnect'', OnDisconnect)]"
  by (simp_all add: queued_then_connected_def eval_defs)

lemma map_of_rejections:
  "map_of (map (\<lambda>m. (promise m, r)) ms) p = (if p \<in> promise ` set ms then Some r else None)"
  by (induction ms) auto

lemma remove1_absent: "count_list xs x \<le> 1 \<Longrightarrow> x \<notin> set (remove1 x xs)"
  by (induction xs) (auto simp: count_list_0_iff split: if_splits)

lemma close_listeners:
  assumes "count_list (mgr_listeners s) (''connect'', OnConnect) \<le> 1"
      and "count_list (mgr_listeners s) (''disconnect'', OnDisconnect) \<le> 1"
  shows "(''connect'', OnConnect) \<notin> set (mgr_listeners (close s))"
    and "(''disconnect'', OnDisconnect) \<notin> set (mgr_listeners (close s))"
    and "(e, Foreign k) \<in> set (mgr_listeners (close s)) \<longleftrightarrow> (e, Foreign k) \<in> set (mgr_listeners s)"
proof -
  let ?c = "(''connect'', OnConnect)" and ?d = "(''disconnect'', OnDisconnect)"
  let ?L = "rev (mgr_listeners s)"
  have "?c \<notin> set (remove1 ?c ?L)" using assms(1) by (intro remove1_absent) simp
  then have "?c \<notin> set (remove1 ?d (remove1 ?c ?L))" using set_remove1_subset by fastforce
  then show "?c \<notin> set (mgr_listeners (close s))" by (simp add: close_fields)
  have "count_list (remove1 ?c ?L) ?d \<le> count_list ?L ?d" by (rule count_remove1_le)
  then have "count_list (remove1 ?c ?L) ?d \<le> 1" using assms(2) by simp
  then have "?d \<notin> set (remove1 ?d (remove1 ?c ?L))" by (rule remove1_absent)
  then show "?d \<notin> set (mgr_listeners (close s))" by (simp add: close_fields)
  show "(e, Foreign k) \<in> set (mgr_listeners (close s)) \<longleftrightarrow> (e, Foreign k) \<in> set (mgr_listeners s)"
    by (simp add: close_fields in_set_remove1)
qed

lemma publish_enqueues:
  assumes "settingUp s \<or> channel s = None \<or> \<not> channelHasRoom s"
  shows "publish pub ex rk body opt s =
           s\<lparr>messages := messages s @
                 [\<lparr>exchange = ex, routingKey = rk, content = body,
                   options = Some (case opt of None \<Rightarrow> [] | Some v \<Rightarrow> v),
                   promise = promises s, isTimedout = False\<rparr>],
             promises := Suc (promises s),
             enqueued := enqueued s @
                 [\<lparr>exchange = ex, routingKey = rk, content = body,
                   options = Some (case opt of None \<Rightarrow> [] | Some v \<Rightarrow> v),
                   promise = promises s, isTimedout = False\<rparr>]\<rparr>"
  using assms unfolding publish_def Let_def by (auto simp: enqueueMessage_def)




lemma run_append: "run pub (es @ fs) s = run pub fs (run pub es s)"
  by (induction es arbitrary: s) simp_all

lemma upt_shift: "[p ..< p + Suc n] = p # [Suc p ..< Suc p + n]"
  using upt_conv_Cons[of p "p + Suc n"] by (simp del: upt_Suc)

lemma publishes_without_channel:
  assumes "channel s = None"
  shows "\<exists>ms. map promise ms = [promises s ..< promises s + length args] \<and>
           run pub (map (\<lambda>(ex, rk, body, opt). Publish ex rk body opt) args) s =
             s\<lparr>messages := messages s @ ms, promises := promises s + length args,
               enqueued := enqueued s @ ms\<rparr>"
  using assms
proof (induction args arbitrary: s)
  case Nil
  then show ?case by simp
next
  case (Cons a args)
  obtain ex rk body opt where a: "a = (ex, rk, body, opt)" by (cases a) auto
  let ?m = "\<lparr>exchange = ex, routingKey = rk, content = body,
              options = Some (case opt of None \<Rightarrow> [] | Some v \<Rightarrow> v),
              promise = promises s, isTimedout = False\<rparr>"
  let ?s1 = "s\<lparr>messages := messages s @ [?m], promises := Suc (promises s),
               enqueued := enqueued s @ [?m]\<rparr>"
  have p: "publish pub ex rk body opt s = ?s1"
    using Cons.prems by (simp add: publish_enqueues)
  have "channel ?s1 = None" using Cons.prems by simp
  from Cons.IH[OF this] obtain ms where
    ms: "map promise ms = [Suc (promises s) ..< Suc (promises s) + length args]"
    and r: "run pub (map (\<lambda>(ex, rk, body, opt). Publish ex rk body opt) args) ?s1 =
             ?s1\<lparr>messages := messages ?s1 @ ms, promises := promises ?s1 + length args,
               enqueued := enqueued ?s1 @ ms\<rparr>"
    by auto
  have "map promise (?m # ms) = [promises s ..< promises s + length (a # args)]"
    using ms upt_shift[of "promises s" "length args"] by (simp del: upt_Suc)
  moreover have "run pub (map (\<lambda>(ex, rk, body, opt). Publish ex rk body opt) (a # args)) s =
      s\<lparr>messages := messages s @ (?m # ms), promises := promises s + length (a # args),
        enqueued := enqueued s @ (?m # ms)\<rparr>"
    by (simp add: a p r)
  ultimately show ?case by blast
qed

lemma last_returns_not_thrown:
  assumes "B = batch pub ch k room n ms" "B \<noteq> []" "pc_result (last B) = Returns b"
  shows "thrown B = None"
proof (cases "thrown B")
  case (Some e)
  then show ?thesis using batch_thrown[of pub ch k room n ms e] assms by simp
qed simp

lemma worker_turn:
  assumes "s' = publishExchangeMessages pub wn s"
    and "new = drop (length (sent s)) (sent s')"
  shows "sent s' = sent s @ new \<and>
         length new \<le> MAX_MESSAGES_PER_BATCH \<and> MAX_MESSAGES_PER_BATCH = 1000 \<and>
         map pc_message new = map Some (take (length new) (messages s)) \<and>
         messages s' = drop (length new) (messages s) \<and>
         (\<forall>i. Suc i < length new \<longrightarrow> pc_result (new ! i) = Returns True) \<and>
         (immediates s' = immediates s \<and> \<not> working s' \<or>
          immediates s' = immediates s @ [wn] \<and> working s' \<and>
            length new = MAX_MESSAGES_PER_BATCH) \<and>
         (length new = MAX_MESSAGES_PER_BATCH \<and> pc_result (last new) = Returns True \<and>
            messages s' \<noteq> [] \<longrightarrow>
          immediates s' = immediates s @ [wn] \<and> working s')"
proof (cases "channel s = None \<or> \<not> shouldPublish s \<or> \<not> working s \<or> wn \<noteq> workerNumber s")
  case True
  then have e: "s' = s\<lparr>working := False\<rparr>"
    unfolding assms(1) publishExchangeMessages_def by simp
  then have "new = []" unfolding assms(2) by simp
  then show ?thesis using e by (simp add: MAX_MESSAGES_PER_BATCH_def)
next
  case False
  then obtain c where c: "channel s = Some c" by auto
  have sp: "shouldPublish s" and n: "wn = workerNumber s" using False by auto
  let ?k = MAX_MESSAGES_PER_BATCH
  let ?B = "batch pub c ?k (channelHasRoom s) (length (sent s)) (messages s)"
  let ?s1 = "s\<lparr>messages := drop (length ?B) (messages s),
               channelHasRoom := room_after (channelHasRoom s) ?B,
               sent := sent s @ ?B, settled := settled s @ settlements ?B\<rparr>"
  have d: "drain pub c ?k s = (thrown ?B, ?s1)"
    by (simp add: drain_batch Let_def)
  have w: "working s" using False by simp
  have s'_some: "s' = emit (ErrorEv e) (?s1\<lparr>working := False\<rparr>)" if "thrown ?B = Some e" for e
    unfolding assms(1) publishExchangeMessages_def using c sp w n that by (simp add: d)
  have s'_again: "s' = ?s1\<lparr>immediates := immediates s @ [wn]\<rparr>"
    if "thrown ?B = None" "room_after (channelHasRoom s) ?B" "drop (length ?B) (messages s) \<noteq> []"
    unfolding assms(1) publishExchangeMessages_def using c sp w n that by (simp add: d)
  have s'_done: "s' = ?s1\<lparr>working := False\<rparr>"
    if "thrown ?B = None" "\<not> (room_after (channelHasRoom s) ?B \<and> drop (length ?B) (messages s) \<noteq> [])"
    unfolding assms(1) publishExchangeMessages_def using c sp w n that by (auto simp: d)
  consider (thrown) e where "thrown ?B = Some e"
    | (again) "thrown ?B = None" "room_after (channelHasRoom s) ?B" "drop (length ?B) (messages s) \<noteq> []"
    | (finished) "thrown ?B = None" "\<not> (room_after (channelHasRoom s) ?B \<and> drop (length ?B) (messages s) \<noteq> [])"
    by (cases "thrown ?B") auto
  note cases3 = this
  have sent': "sent s' = sent s @ ?B"
    by (rule cases3) (simp_all add: s'_some s'_again s'_done emit_def)
  then have new: "new = ?B" unfolding assms(2) by simp
  have msgs: "messages s' = drop (length ?B) (messages s)"
    by (rule cases3) (simp_all add: s'_some s'_again s'_done emit_def)
  have sched: "immediates s' = immediates s \<and> \<not> working s' \<or>
      immediates s' = immediates s @ [wn] \<and> working s' \<and> length ?B = ?k"
  proof (rule cases3)
    fix e assume "thrown ?B = Some e"
    then show ?thesis by (simp add: s'_some emit_def)
  next
    assume a: "thrown ?B = None" "room_after (channelHasRoom s) ?B"
      "drop (length ?B) (messages s) \<noteq> []"
    then have "\<not> length ?B < ?k" using batch_stops by blast
    then have "length ?B = ?k" using batch_length[of pub c ?k] by (simp add: le_antisym)
    then show ?thesis using w by (simp add: s'_again[OF a])
  next
    assume a: "thrown ?B = None"
      "\<not> (room_after (channelHasRoom s) ?B \<and> drop (length ?B) (messages s) \<noteq> [])"
    show ?thesis by (simp add: s'_done[OF a])
  qed
  have resched: "immediates s' = immediates s @ [wn] \<and> working s'"
    if "length ?B = ?k" "pc_result (last ?B) = Returns True" "messages s' \<noteq> []"
  proof -
    have ne: "?B \<noteq> []" using that(1) by (auto simp: MAX_MESSAGES_PER_BATCH_def)
    have t: "thrown ?B = None" using last_returns_not_thrown[OF refl ne that(2)] .
    have r: "room_after (channelHasRoom s) ?B" using batch_room_after[OF t ne] that(2) by simp
    have m: "drop (length ?B) (messages s) \<noteq> []" using that(3) unfolding msgs .
    show ?thesis using w by (simp add: s'_again[OF t r m])
  qed
  show ?thesis
    using sent' msgs sched resched batch_length[of pub c ?k]
      batch_messages[of pub c ?k] batch_room[of _ pub c ?k]
    unfolding new by (simp add: MAX_MESSAGES_PER_BATCH_def)
qed

lemma batch_room_throughout:
  "batch always_room ch k True n ms =
     map (\<lambda>m. queued_call ch m (Returns True)) (take k ms)"
  by (rule batch_all_room) (simp add: always_room_def)

lemma sent_with_room:
  "thrown (map (\<lambda>m. queued_call ch m (Returns True)) ms) = None"
  "room_after r (map (\<lambda>m. queued_call ch m (Returns True)) ms) = (if ms = [] then r else True)"
  by (induction ms arbitrary: r) (simp_all add: queued_call_def)

lemmas trace_defs = small_defs shouldPublish_def publishExchangeMessages_def
        startWorker_def onDisconnect_def onConnect_def constructor_def onConnect_created_def
        onConnect_settled_def MAX_MESSAGES_PER_BATCH_def drain_batch always_room_def
        all_fulfilled_def all_subscribed_def Let_def batch_room_throughout sent_with_room


lemma settle_setups_emits:
  "settle_setups rs s = s\<lparr>emitted := emitted s @ map ErrorEv (reported rs)\<rparr>"
  by (induction rs s rule: settle_setups.induct) (simp_all add: setup_catch_def emit_def)

lemma consume_inner_frame:
  "consume_inner c reply s = (r, s') \<Longrightarrow>
     emitted s' = emitted s \<and> channel s' = channel s \<and> setups s' = setups s \<and>
     mgr_listeners s' = mgr_listeners s \<and> consumers s' = consumers s \<and>
     settingUp s' = settingUp s \<and> setup_calls s' = setup_calls s"
  by (auto simp: consume_inner_def consume_call_def set_tag_def chan_call_def Let_def
      split: option.splits consume_reply.splits)

lemma reconnectConsumer_frame:
  "reconnectConsumer c reply s = (r, s') \<Longrightarrow>
     emitted s' = emitted s \<and> channel s' = channel s \<and> setups s' = setups s \<and>
     mgr_listeners s' = mgr_listeners s \<and> consumers s' = consumers s \<and>
     settingUp s' = settingUp s \<and> setup_calls s' = setup_calls s"
  using consume_inner_frame[of c reply s r s']
  by (auto simp: reconnectConsumer_def split: if_splits)

lemma reconnect_all_frame:
  "reconnect_all cs reply s = (r, s') \<Longrightarrow>
     emitted s' = emitted s \<and> channel s' = channel s \<and> setups s' = setups s \<and>
     mgr_listeners s' = mgr_listeners s \<and> consumers s' = consumers s \<and>
     settingUp s' = settingUp s \<and> setup_calls s' = setup_calls s"
proof (induction cs arbitrary: s r s')
  case Nil
  then show ?case by simp
next
  case (Cons c cs)
  obtain r1 s1 where a: "reconnectConsumer c (reply c) s = (r1, s1)"
    by (cases "reconnectConsumer c (reply c) s") auto
  obtain r2 s2 where b: "reconnect_all cs reply s1 = (r2, s2)"
    by (cases "reconnect_all cs reply s1") auto
  have "s' = s2" using Cons.prems a b by simp
  then show ?case using reconnectConsumer_frame[OF a] Cons.IH[OF b] by simp
qed

lemma drain_more_frame:
  "drain pub ch k s = (r, s') \<Longrightarrow>
     emitted s' = emitted s \<and> channel s' = channel s \<and> setups s' = setups s \<and>
     mgr_listeners s' = mgr_listeners s \<and> consumers s' = consumers s \<and>
     settingUp s' = settingUp s \<and> setup_calls s' = setup_calls s \<and>
     workerNumber s' = workerNumber s \<and> consumer_objs s' = consumer_objs s \<and>
     chan_calls s' = chan_calls s \<and> immediates s' = immediates s \<and> working s' = working s"
  by (auto simp: drain_batch Let_def)

lemma publishExchangeMessages_frame:
  "channel (publishExchangeMessages pub wn s) = channel s \<and>
   setups (publishExchangeMessages pub wn s) = setups s \<and>
   mgr_listeners (publishExchangeMessages pub wn s) = mgr_listeners s \<and>
   settingUp (publishExchangeMessages pub wn s) = settingUp s \<and>
   workerNumber (publishExchangeMessages pub wn s) = workerNumber s \<and>
   consumers (publishExchangeMessages pub wn s) = consumers s \<and>
   consumer_objs (publishExchangeMessages pub wn s) = consumer_objs s \<and>
   chan_calls (publishExchangeMessages pub wn s) = chan_calls s \<and>
   (\<exists>es. emitted (publishExchangeMessages pub wn s) = emitted s @ es)"
proof (cases "drain pub (the (channel s)) MAX_MESSAGES_PER_BATCH s")
  case (Pair r s1)
  from drain_more_frame[OF Pair] show ?thesis
    unfolding publishExchangeMessages_def Pair
    by (cases r) (simp_all add: emit_def)
qed

lemma startWorker_frame:
  "channel (startWorker pub s) = channel s \<and>
   setups (startWorker pub s) = setups s \<and>
   mgr_listeners (startWorker pub s) = mgr_listeners s \<and>
   settingUp (startWorker pub s) = settingUp s \<and>
   consumers (startWorker pub s) = consumers s \<and>
   consumer_objs (startWorker pub s) = consumer_objs s \<and>
   chan_calls (startWorker pub s) = chan_calls s \<and>
   (\<exists>es. emitted (startWorker pub s) = emitted s @ es)"
  using publishExchangeMessages_frame[of pub "Suc (workerNumber s)"
      "s\<lparr>working := True, workerNumber := Suc (workerNumber s)\<rparr>"]
  by (simp add: startWorker_def Let_def)

lemma subscribed_fields:
  "consumers subscribed = [0]"
  "consumer_objs subscribed 0 =
     Some \<lparr>consumerTag = Some ''abc123'', queue = ''jobs'', prefetch = Some 10, tag_option = ''abc123''\<rparr>"
  "channel subscribed = Some 1"
  "chan_calls subscribed = [Prefetch 1 10, ConsumeCall 1 ''jobs'' ''abc123'' 0]"
  "emitted subscribed = [ConnectEv]"
  by (simp_all add: subscribed_def eval_defs)

lemma broker_cancel_cases:
  assumes "consumer_objs s c = Some obj"
  shows "c \<notin> set (consumers s) \<or> channel s = None \<Longrightarrow> broker_cancel c reply s = set_tag c None s"
    and "c \<in> set (consumers s) \<Longrightarrow> channel s = Some ch \<Longrightarrow>
         broker_cancel c (Subscribed t) s =
           s\<lparr>consumer_objs := (consumer_objs s)(c := Some (obj\<lparr>consumerTag := Some t\<rparr>)),
             chan_calls := chan_calls s @
               (case prefetch obj of Some n \<Rightarrow> [Prefetch ch n] | None \<Rightarrow> []) @
               [ConsumeCall ch (queue obj) (tag_option obj) c]\<rparr>"
    and "c \<in> set (consumers s) \<Longrightarrow> channel s = Some ch \<Longrightarrow>
         broker_cancel c (Refused e) s =
           s\<lparr>consumer_objs := (consumer_objs s)(c := Some (obj\<lparr>consumerTag := None\<rparr>)),
             emitted := emitted s @ (if err_code e = Some 404 then [] else [ErrorEv e]),
             chan_calls := chan_calls s @
               (case prefetch obj of Some n \<Rightarrow> [Prefetch ch n] | None \<Rightarrow> []) @
               [ConsumeCall ch (queue obj) (tag_option obj) c]\<rparr>"
  using assms
  by (auto simp: broker_cancel_def reconnectConsumer_def consume_inner_def consume_call_def
      set_tag_def chan_call_def emit_def Let_def split: option.splits)

lemma cancel_removes:
  assumes "distinct (consumers s)" "List.find (has_option_tag s t) (consumers s) = Some c"
  shows "c \<notin> set (consumers (cancel t s))"
    and "consumer_objs (cancel t s) = consumer_objs s"
proof -
  have "consumers (cancel t s) = remove1 c (consumers s)"
    using assms(2) by (simp add: cancel_def Let_def chan_call_def split: option.splits)
  then show "c \<notin> set (consumers (cancel t s))" using assms(1) by simp
  show "consumer_objs (cancel t s) = consumer_objs s"
    using assms(2) by (simp add: cancel_def Let_def chan_call_def split: option.splits)
qed

















lemma full_queue_explicit:
  "\<exists>ms. length ms = 1001 \<and>
     full_queue =
       (constructor [] False None)
         \<lparr>messages := ms, channel := Some 1, working := True, workerNumber := 1,
           channelHasRoom := True, promises := 1001, chains := 1, opened := [1], enqueued := ms\<rparr>"
proof -
  let ?s0 = "constructor [] False None"
  let ?args = "replicate 1001 (''ex'', ''rk'', ''msg'', None :: publish_options option)"
  have "channel ?s0 = None" by (simp add: constructor_fields)
  from publishes_without_channel[OF this, of ?args always_room] obtain ms where
    ms: "map promise ms = [0 ..< 1001]"
    and r: "run always_room (replicate 1001 (Publish ''ex'' ''rk'' ''msg'' None)) ?s0 =
              ?s0\<lparr>messages := ms, promises := 1001, enqueued := ms\<rparr>"
    by (auto simp: constructor_fields)
  have "length (map promise ms) = length [0 ..< 1001]" by (simp only: ms)
  then have len: "length ms = 1001" by (simp only: length_map length_upt diff_zero)
  have "full_queue = (run always_room [MgrConnect, ChannelCreated 1]
      (?s0\<lparr>messages := ms, promises := 1001, enqueued := ms\<rparr>))
       \<lparr>settingUp := False, working := True, workerNumber := 1\<rparr>"
    by (simp only: full_queue_def run_append r)
  also have "\<dots> = ?s0
         \<lparr>messages := ms, channel := Some 1, working := True, workerNumber := 1,
           channelHasRoom := True, promises := 1001, chains := 1, opened := [1], enqueued := ms\<rparr>"
    by (simp add: trace_defs)
  finally show ?thesis using len by blast
qed

lemma last_sent_with_room:
  "xs \<noteq> [] \<Longrightarrow> pc_result (last (map (\<lambda>m. queued_call ch m r) xs)) = r"
  by (simp add: last_map queued_call_def)

lemma full_queue_turn:
  "length (sent (publishExchangeMessages always_room 1 full_queue)) = 1000 \<and>
   sent full_queue = [] \<and> immediates full_queue = [] \<and>
   queueLength (publishExchangeMessages always_room 1 full_queue) = 1 \<and>
   pc_result (last (sent (publishExchangeMessages always_room 1 full_queue))) = Returns True"
proof -
  from full_queue_explicit obtain ms where len: "length ms = 1001"
    and e: "full_queue =
       (constructor [] False None)
         \<lparr>messages := ms, channel := Some 1, working := True, workerNumber := 1,
           channelHasRoom := True, promises := 1001, chains := 1, opened := [1], enqueued := ms\<rparr>"
    by blast
  have ne: "ms \<noteq> []" using len by auto
  have l: "take 1000 ms \<noteq> []" using ne by simp
  have t: "publishExchangeMessages always_room 1
       ((constructor [] False None)
         \<lparr>messages := ms, channel := Some 1, working := True, workerNumber := 1,
           channelHasRoom := True, promises := 1001, chains := 1, opened := [1], enqueued := ms\<rparr>) =
       (constructor [] False None)
         \<lparr>messages := drop 1000 ms, channel := Some 1, working := True, workerNumber := 1,
           channelHasRoom := True, promises := 1001, chains := 1, opened := [1], enqueued := ms,
           immediates := [1],
           sent := map (\<lambda>m. queued_call 1 m (Returns True)) (take 1000 ms),
           settled := settlements (map (\<lambda>m. queued_call 1 m (Returns True)) (take 1000 ms))\<rparr>"
    using len ne by (simp add: trace_defs)
  show ?thesis unfolding e t using len ne
    by (simp add: constructor_def addListener_def queueLength_def last_sent_with_room[OF l])
qed


lemma cancelAll_clears:
  "consumers (cancelAll s) = []" "consumer_objs (cancelAll s) = consumer_objs s"
proof -
  have f: "consumers (foldl (\<lambda>a c. case truthy_tag a c of None \<Rightarrow> a
          | Some t \<Rightarrow> chan_call (CancelCall ch t) a) w cs) = consumers w \<and>
        consumer_objs (foldl (\<lambda>a c. case truthy_tag a c of None \<Rightarrow> a
          | Some t \<Rightarrow> chan_call (CancelCall ch t) a) w cs) = consumer_objs w" for ch w cs
    by (induction cs arbitrary: w) (simp_all add: chan_call_def split: option.splits)
  show "consumers (cancelAll s) = []" "consumer_objs (cancelAll s) = consumer_objs s"
    by (simp_all add: cancelAll_def Let_def f split: option.splits)
qed


lemma resubscribed_twice [simp]: "resubscribed r (resubscribed r obj) = resubscribed r obj"
  by (cases r) (simp_all add: resubscribed_def)

lemma objs_consume_inner:
  "consumer_objs (snd (consume_inner c reply s)) k =
     (if k = c \<and> channel s \<noteq> None then map_option (resubscribed reply) (consumer_objs s c)
      else consumer_objs s k)"
  by (auto simp: consume_inner_def consume_call_def set_tag_def chan_call_def Let_def
      resubscribed_def split: option.splits consume_reply.splits)

lemma objs_reconnectConsumer:
  "consumer_objs (snd (reconnectConsumer c reply s)) k =
     (if k = c \<and> c \<in> set (consumers s) \<and> channel s \<noteq> None
      then map_option (resubscribed reply) (consumer_objs s c)
      else consumer_objs s k)"
  by (auto simp: reconnectConsumer_def objs_consume_inner)

lemma objs_reconnect_all:
  "consumer_objs (snd (reconnect_all cs reply s)) k =
     (if k \<in> set cs \<and> k \<in> set (consumers s) \<and> channel s \<noteq> None
      then map_option (resubscribed (reply k)) (consumer_objs s k)
      else consumer_objs s k)"
proof (induction cs arbitrary: s)
  case Nil
  then show ?case by simp
next
  case (Cons c cs)
  obtain r s1 where a: "reconnectConsumer c (reply c) s = (r, s1)"
    by (cases "reconnectConsumer c (reply c) s") auto
  obtain r' s2 where b: "reconnect_all cs reply s1 = (r', s2)"
    by (cases "reconnect_all cs reply s1") auto
  have f: "channel s1 = channel s" "consumers s1 = consumers s"
    using reconnectConsumer_frame[OF a] by simp_all
  have o1: "consumer_objs s1 k =
     (if k = c \<and> c \<in> set (consumers s) \<and> channel s \<noteq> None
      then map_option (resubscribed (reply c)) (consumer_objs s c)
      else consumer_objs s k)"
    using objs_reconnectConsumer[of c "reply c" s k] a by simp
  have o2: "consumer_objs s2 k =
     (if k \<in> set cs \<and> k \<in> set (consumers s) \<and> channel s \<noteq> None
      then map_option (resubscribed (reply k)) (consumer_objs s1 k)
      else consumer_objs s1 k)"
    using Cons.IH[of s1] b by (simp add: f)
  have "consumer_objs s2 k =
     (if k \<in> set (c # cs) \<and> k \<in> set (consumers s) \<and> channel s \<noteq> None
      then map_option (resubscribed (reply k)) (consumer_objs s k)
      else consumer_objs s k)"
    unfolding o2 o1 by (auto simp: option.map_comp comp_def)
  then show ?case by (simp only: reconnect_all.simps a b split snd_conv)
qed

lemma objs_onConnect_settled:
  "consumer_objs (onConnect_settled pub outs reply s) k =
     (if k \<in> set (consumers s) \<and> channel s \<noteq> None
      then map_option (resubscribed (reply k)) (consumer_objs s k)
      else consumer_objs s k)"
proof -
  let ?s1 = "s\<lparr>emitted := emitted s @ map ErrorEv (reported (map outs (setups s)))\<rparr>"
  obtain r s2 where a: "reconnect_all (consumers s) reply ?s1 = (r, s2)"
    by (cases "reconnect_all (consumers s) reply ?s1") auto
  have "consumer_objs (snd (reconnect_all (consumers s) reply ?s1)) k =
     (if k \<in> set (consumers s) \<and> k \<in> set (consumers ?s1) \<and> channel ?s1 \<noteq> None
      then map_option (resubscribed (reply k)) (consumer_objs ?s1 k)
      else consumer_objs ?s1 k)"
    by (rule objs_reconnect_all)
  then have o2: "consumer_objs s2 k =
     (if k \<in> set (consumers s) \<and> channel s \<noteq> None
      then map_option (resubscribed (reply k)) (consumer_objs s k)
      else consumer_objs s k)"
    unfolding a by auto
  have "consumer_objs (onConnect_settled pub outs reply s) = consumer_objs s2"
    unfolding onConnect_settled_def Let_def settle_setups_emits
    using startWorker_frame[of pub "s2\<lparr>settingUp := False\<rparr>"] a
    by (cases r) (simp_all add: onConnect_catch_def emit_def)
  then show ?thesis using o2 by simp
qed

lemma objs_cancel: "consumer_objs (cancel t s) = consumer_objs s"
  by (simp add: cancel_def Let_def chan_call_def split: option.splits)

lemma objs_close: "consumer_objs (close s) = consumer_objs s"
  unfolding close_def Let_def foldl_reject
  by (simp add: removeListener_def chan_call_def emit_def split: option.splits)

lemma objs_publish: "consumer_objs (publish pub ex rk body opt s) = consumer_objs s"
  by (simp add: publish_def Let_def small_defs split: pub_result.splits)

lemma objs_step:
  "\<not> subscribing e \<Longrightarrow> consumer_objs (step pub e s) = consumer_objs s"
proof (cases e)
  case Immediate
  then show ?thesis
    using publishExchangeMessages_frame[of pub _ "s\<lparr>immediates := tl (immediates s)\<rparr>"]
    by (cases "immediates s") simp_all
next
  case (ChannelDrain ch)
  then show ?thesis
    using startWorker_frame[of pub "s\<lparr>channelHasRoom := True\<rparr>"]
    by (simp add: onChannelDrain_def)
qed (simp_all add: objs_cancel objs_close objs_publish cancelAll_clears onConnect_def onDisconnect_def
      onConnect_created_def onConnect_catch_def emit_def onChannelClose_def)

lemma objs_consume_other:
  "k \<noteq> allocated s \<Longrightarrow> consumer_objs (consume q opt_tag pre rnd reply s) k = consumer_objs s k"
  by (simp add: consume_def Let_def objs_consume_inner)

lemma objs_broker_cancel_other:
  "k \<noteq> c \<Longrightarrow> consumer_objs (broker_cancel c reply s) k = consumer_objs s k"
proof -
  assume n: "k \<noteq> c"
  obtain r s1 where a: "reconnectConsumer c reply (set_tag c None s) = (r, s1)"
    by (cases "reconnectConsumer c reply (set_tag c None s)") auto
  have "consumer_objs s1 k = consumer_objs (set_tag c None s) k"
    using objs_reconnectConsumer[of c reply "set_tag c None s" k] a n by simp
  also have "\<dots> = consumer_objs s k" using n by (simp add: set_tag_def split: option.splits)
  finally show ?thesis unfolding broker_cancel_def a
    by (cases r) (simp_all add: emit_def)
qed





































lemma reconnecting_fields:
  "consumers reconnecting = [0]"
  "consumer_objs reconnecting 0 =
     Some \<lparr>consumerTag = Some ''abc123'', queue = ''jobs'', prefetch = Some 10, tag_option = ''abc123''\<rparr>"
  "channel reconnecting = Some 2"
  by (simp_all add: reconnecting_def eval_defs)



section \<open>The claims\<close>

text \<open>
  C1. A message enqueued by an earlier \<^verbatim>\<open>publish\<close> call is handed to the channel
  before one enqueued by a later call, whatever happens in between (disconnects
  and reconnects included): in every reachable state the queued messages handed
  to a channel so far are a prefix of the enqueued messages and the queue is the
  rest, and their promise numbers, which count the \<^verbatim>\<open>publish\<close> calls, grow along
  that list.
\<close>

theorem C1_fifo_order:
  assumes "s = run pub evs (constructor foreign connected setup_fn)"
  shows "handed s @ messages s = enqueued s \<and>
         handed s = take (length (handed s)) (enqueued s) \<and>
         messages s = drop (length (handed s)) (enqueued s) \<and>
         sorted_wrt (<) (map promise (handed s @ messages s))"
proof -
  have e: "handed s @ messages s = enqueued s" and o: "sorted_wrt (<) (map promise (enqueued s))"
    using invD(1,2)[OF inv_reachable[of pub evs foreign connected setup_fn]] assms by simp_all
  have "take (length (handed s)) (handed s @ messages s) = handed s"
       "drop (length (handed s)) (handed s @ messages s) = messages s"
    by simp_all
  then show ?thesis using e o by simp
qed

text \<open>C1 at a concrete input.\<close>

theorem C1_witness:
  "map promise (handed queued_then_connected) @ map promise (messages queued_then_connected) = [0, 1, 2] \<and>
   handed queued_then_connected @ messages queued_then_connected = enqueued queued_then_connected"
proof -
  from C1_fifo_order[OF queued_then_connected_def]
  have "handed queued_then_connected @ messages queued_then_connected =
          enqueued queued_then_connected"
    by (rule conjunct1)
  then show ?thesis by (simp add: queued_then_connected_fields)
qed




text \<open>
  C3. \<^verbatim>\<open>close()\<close> calls \<^verbatim>\<open>reject\<close> with "Channel closed" once for each message in
  the queue, and the queue holds no message twice; a pending one becomes rejected,
  a promise settled before keeps its settlement, and promises of no queued
  message are not touched. Afterwards the connection manager holds neither the
  wrapper's \<^verbatim>\<open>connect\<close> nor its \<^verbatim>\<open>disconnect\<close> listener, and the listeners of
  others are as before.
\<close>

theorem C3_close_rejects_pending:
  assumes "s = run pub evs (constructor foreign connected setup_fn)"
  shows "settled (close s) = settled s @ map (\<lambda>m. (promise m, Rejected channel_closed)) (messages s) \<and>
         distinct (map promise (messages s)) \<and>
         (\<forall>m \<in> set (messages s). promise_state s (promise m) = None \<longrightarrow>
            promise_state (close s) (promise m) = Some (Rejected channel_closed)) \<and>
         (\<forall>p. promise_state s p \<noteq> None \<longrightarrow> promise_state (close s) p = promise_state s p) \<and>
         (\<forall>p. p \<notin> promise ` set (messages s) \<longrightarrow> promise_state (close s) p = promise_state s p) \<and>
         (''connect'', OnConnect) \<notin> set (mgr_listeners (close s)) \<and>
         (''disconnect'', OnDisconnect) \<notin> set (mgr_listeners (close s)) \<and>
         (\<forall>e k. (e, Foreign k) \<in> set (mgr_listeners (close s)) \<longleftrightarrow>
                (e, Foreign k) \<in> set (mgr_listeners s))"
proof -
  have i: "wrapper_inv s" unfolding assms by (rule inv_reachable)
  have "distinct (map promise (enqueued s))"
    using invD(2)[OF i] strict_sorted_iff by blast
  then have d: "distinct (map promise (messages s))"
    using invD(1)[OF i] by (metis distinct_append map_append)
  have ps: "promise_state (close s) p =
      (case promise_state s p of Some v \<Rightarrow> Some v
       | None \<Rightarrow> if p \<in> promise ` set (messages s) then Some (Rejected channel_closed) else None)" for p
    by (simp add: promise_state_def close_fields map_of_append map_add_def map_of_rejections split: option.splits)
  show ?thesis
    using d close_listeners[OF invD(5,6)[OF i]]
    by (auto simp: ps close_fields(5) split: option.splits)
qed

text \<open>C3 at a concrete input.\<close>

theorem C3_witness:
  "promise_state queued_then_connected 2 = None \<and>
   promise_state (close queued_then_connected) 2 = Some (Rejected channel_closed) \<and>
   promise_state (close queued_then_connected) 0 = Some (Resolved True) \<and>
   (''connect'', OnConnect) \<notin> set (mgr_listeners (close queued_then_connected)) \<and>
   (''disconnect'', OnDisconnect) \<notin> set (mgr_listeners (close queued_then_connected))"
  using C3_close_rejects_pending[OF queued_then_connected_def]
  by (simp add: queued_then_connected_def eval_defs)

text \<open>
  C4, as stated, fails: with two messages enqueued while disconnected,
  \<^verbatim>\<open>close()\<close> rejects both promises with "Channel closed", and \<^verbatim>\<open>queueLength()\<close>
  then reports 2, not 0: \<^verbatim>\<open>close\<close> does not remove the messages from the queue.
\<close>

theorem C4_counterexample:
  "channel two_unsent = None \<and> queueLength two_unsent = 2 \<and>
   promise_state (close two_unsent) 0 = Some (Rejected channel_closed) \<and>
   promise_state (close two_unsent) 1 = Some (Rejected channel_closed) \<and>
   queueLength (close two_unsent) = 2 \<and> queueLength (close two_unsent) \<noteq> 0"
  by (simp add: two_unsent_def eval_defs)

text \<open>
  C4, amended. After N \<^verbatim>\<open>publish\<close> calls on a wrapper that has no channel yet,
  all N promises are pending and the queue holds N messages; \<^verbatim>\<open>close()\<close>
  rejects all N promises with "Channel closed" and leaves the queue as it is, so
  \<^verbatim>\<open>queueLength()\<close> still reports N.
\<close>

theorem C4_close_rejects_and_keeps_queue:
  assumes "s = run pub (map (\<lambda>(ex, rk, body, opt). Publish ex rk body opt) args)
                 (constructor foreign connected setup_fn)"
  shows "channel s = None \<and> queueLength s = length args \<and>
         (\<forall>p < length args. promise_state s p = None \<and>
             promise_state (close s) p = Some (Rejected channel_closed)) \<and>
         queueLength (close s) = length args \<and> messages (close s) = messages s"
proof -
  let ?s0 = "constructor foreign connected setup_fn"
  have "channel ?s0 = None" by (simp add: constructor_fields)
  from publishes_without_channel[OF this, of args pub] obtain ms where
    ms: "map promise ms = [0 ..< length args]"
    and r: "s = ?s0\<lparr>messages := ms, promises := length args, enqueued := ms\<rparr>"
    unfolding assms by (auto simp: constructor_fields)
  have len: "length ms = length args" using ms by (metis length_map length_upt minus_nat.diff_0)
  have flds: "channel s = None" "messages s = ms" "settled s = []"
    unfolding r by (simp_all add: constructor_fields)
  have "promise ` set ms = {0 ..< length args}"
    using ms by (metis atLeastLessThan_upt list.set_map)
  then have "promise_state (close s) p = Some (Rejected channel_closed)" if "p < length args" for p
    using that by (simp add: promise_state_def close_fields flds map_of_rejections)
  then show ?thesis
    by (simp add: flds len queueLength_def close_fields promise_state_def)
qed

text \<open>C4, amended, at a concrete input.\<close>

theorem C4_witness:
  "promise_state (close two_unsent) 0 = Some (Rejected channel_closed) \<and>
   promise_state (close two_unsent) 1 = Some (Rejected channel_closed) \<and>
   queueLength (close two_unsent) = 2 \<and> messages (close two_unsent) = messages two_unsent"
proof -
  have "two_unsent = run always_room
      (map (\<lambda>(ex, rk, body, opt). Publish ex rk body opt)
         [(''ex'', ''a'', ''one'', None), (''ex'', ''b'', ''two'', None)])
      (constructor [] False None)"
    by (simp add: two_unsent_def)
  from C4_close_rejects_and_keeps_queue[OF this] show ?thesis by simp
qed




text \<open>
  C6. One turn of the worker makes at most 1000 calls of \<^verbatim>\<open>channel.publish\<close>,
  for the first messages of the queue in their order, and each call but the
  last returned that room remains. The turn schedules the next one only after a
  full batch of 1000, and then the worker stays active; whenever a full batch
  ends with room and messages left, it does schedule the next turn with
  \<^verbatim>\<open>setImmediate\<close>. Otherwise the worker flag is cleared.
\<close>

theorem C6_batch_bound:
  assumes "s' = publishExchangeMessages pub wn s"
    and "new = drop (length (sent s)) (sent s')"
  shows "sent s' = sent s @ new \<and>
         length new \<le> MAX_MESSAGES_PER_BATCH \<and> MAX_MESSAGES_PER_BATCH = 1000 \<and>
         map pc_message new = map Some (take (length new) (messages s)) \<and>
         messages s' = drop (length new) (messages s) \<and>
         (\<forall>i. Suc i < length new \<longrightarrow> pc_result (new ! i) = Returns True) \<and>
         (immediates s' = immediates s \<and> \<not> working s' \<or>
          immediates s' = immediates s @ [wn] \<and> working s' \<and>
            length new = MAX_MESSAGES_PER_BATCH) \<and>
         (length new = MAX_MESSAGES_PER_BATCH \<and> pc_result (last new) = Returns True \<and>
            messages s' \<noteq> [] \<longrightarrow>
          immediates s' = immediates s @ [wn] \<and> working s')"
  using assms by (rule worker_turn)

text \<open>C6 at a concrete input.\<close>

theorem C6_witness:
  "length (sent (publishExchangeMessages room_once 1 ready_worker)) = 2 \<and>
   queueLength (publishExchangeMessages room_once 1 ready_worker) = 1 \<and>
   \<not> working (publishExchangeMessages room_once 1 ready_worker) \<and>
   immediates (publishExchangeMessages room_once 1 ready_worker) = [] \<and>
   length (sent (publishExchangeMessages always_room 1 full_queue)) = 1000 \<and>
   queueLength (publishExchangeMessages always_room 1 full_queue) = 1 \<and>
   working (publishExchangeMessages always_room 1 full_queue) \<and>
   immediates (publishExchangeMessages always_room 1 full_queue) = [1]"
proof -
  have a: "length (sent (publishExchangeMessages room_once 1 ready_worker)) = 2 \<and>
   queueLength (publishExchangeMessages room_once 1 ready_worker) = 1 \<and>
   \<not> working (publishExchangeMessages room_once 1 ready_worker) \<and>
   immediates (publishExchangeMessages room_once 1 ready_worker) = []"
    using C6_batch_bound[OF refl refl, of room_once 1 ready_worker]
    by (simp add: ready_worker_def room_once_def eval_defs)
  note f = full_queue_turn
  have "messages (publishExchangeMessages always_room 1 full_queue) \<noteq> []"
    using f by (auto simp: queueLength_def)
  then have "immediates (publishExchangeMessages always_room 1 full_queue) = immediates full_queue @ [1] \<and>
        working (publishExchangeMessages always_room 1 full_queue)"
    using C6_batch_bound[OF refl refl, of always_room 1 full_queue] f
    by (simp add: MAX_MESSAGES_PER_BATCH_def)
  then show ?thesis using a f by simp
qed

text \<open>
  C7. When the setup promises settle, a failure named
  \<^verbatim>\<open>IllegalOperationError\<close> emits nothing and every other failure emits one
  \<^verbatim>\<open>'error'\<close> event, in order, before anything else of the run. The run never
  changes the list of setup functions or the listeners held on the connection
  manager, so the next channel created calls every setup function again; and if
  the channel is still there and no consumer fails to subscribe, the run ends
  with the channel kept, no setup pending and a \<^verbatim>\<open>'connect'\<close> event.
\<close>

theorem C7_setup_failure_reported:
  assumes "s' = onConnect_settled pub outs reply s"
    and "rs = map outs (setups s)"
  shows "settle_setups rs s = s\<lparr>emitted := emitted s @ map ErrorEv (reported rs)\<rparr> \<and>
         reported rs = filter (\<lambda>e. err_name e \<noteq> ''IllegalOperationError'')
                         (concat (map (\<lambda>r. case r of Fulfilled \<Rightarrow> [] | Failed e \<Rightarrow> [e]) rs)) \<and>
         take (length (emitted s) + length (reported rs)) (emitted s') =
           emitted s @ map ErrorEv (reported rs) \<and>
         setups s' = setups s \<and> mgr_listeners s' = mgr_listeners s \<and>
         setup_calls (onConnect_created ch s') = setup_calls s' @ map (\<lambda>f. (f, ch)) (setups s) \<and>
         (channel s = Some c \<and> fst (reconnect_all (consumers s) reply (settle_setups rs s)) = None \<longrightarrow>
            channel s' = Some c \<and> \<not> settingUp s' \<and> last (emitted s') = ConnectEv)"
proof -
  let ?s1 = "settle_setups rs s"
  have s1: "?s1 = s\<lparr>emitted := emitted s @ map ErrorEv (reported rs)\<rparr>"
    by (rule settle_setups_emits)
  have rep: "reported rs = filter (\<lambda>e. err_name e \<noteq> ''IllegalOperationError'')
                         (concat (map (\<lambda>r. case r of Fulfilled \<Rightarrow> [] | Failed e \<Rightarrow> [e]) rs))"
    by (induction rs rule: reported.induct) simp_all
  obtain r s2 where ra: "reconnect_all (consumers ?s1) reply ?s1 = (r, s2)"
    by (cases "reconnect_all (consumers ?s1) reply ?s1") auto
  note f2 = reconnect_all_frame[OF ra]
  have cons: "consumers ?s1 = consumers s" by (simp add: s1)
  have e2: "emitted s2 = emitted s @ map ErrorEv (reported rs)" using f2 by (simp add: s1)
  have s': "s' = (case r of Some err \<Rightarrow> onConnect_catch err s2
              | None \<Rightarrow> if channel s2 = None then s2\<lparr>settingUp := False\<rparr>
                        else emit ConnectEv (startWorker pub (s2\<lparr>settingUp := False\<rparr>)))"
    unfolding assms(1) onConnect_settled_def Let_def assms(2)[symmetric] ra
    by (cases r) simp_all
  note sw = startWorker_frame[of pub "s2\<lparr>settingUp := False\<rparr>"]
  from sw obtain es where es: "emitted (startWorker pub (s2\<lparr>settingUp := False\<rparr>)) = emitted s2 @ es"
    by auto
  have em: "\<exists>es. emitted s' = emitted s2 @ es"
    unfolding s' using es
    by (cases r) (simp_all add: onConnect_catch_def emit_def)
  have frame: "setups s' = setups s \<and> mgr_listeners s' = mgr_listeners s"
    unfolding s' using sw f2
    by (cases r) (simp_all add: onConnect_catch_def emit_def s1)
  have ok: "channel s' = Some c \<and> \<not> settingUp s' \<and> last (emitted s') = ConnectEv"
    if "channel s = Some c" "fst (reconnect_all (consumers s) reply ?s1) = None"
  proof -
    have "r = None" using that(2) ra cons by simp
    moreover have "channel s2 = Some c" using f2 that(1) by (simp add: s1)
    ultimately show ?thesis unfolding s' using sw by (simp add: emit_def)
  qed
  show ?thesis
    using s1 rep em e2 frame ok
    by (auto simp: onConnect_created_def)
qed

text \<open>C7 at a concrete input.\<close>

theorem C7_witness:
  "emitted (onConnect_settled always_room (\<lambda>f. Failed illegal_operation) all_subscribed setting_up) =
     [ConnectEv] \<and>
   emitted (onConnect_settled always_room (\<lambda>f. Failed precondition_failed) all_subscribed setting_up) =
     [ErrorEv precondition_failed, ConnectEv] \<and>
   channel (onConnect_settled always_room (\<lambda>f. Failed precondition_failed) all_subscribed setting_up) =
     Some 1 \<and>
   setup_calls (onConnect_created 2
      (onConnect_settled always_room (\<lambda>f. Failed precondition_failed) all_subscribed setting_up)) =
     [(7, 1), (7, 2)]"
  using C7_setup_failure_reported[OF refl refl,
      where pub = always_room and outs = "\<lambda>f. Failed precondition_failed"
        and reply = all_subscribed and s = setting_up and ch = 2 and c = 1]
    C7_setup_failure_reported[OF refl refl,
      where pub = always_room and outs = "\<lambda>f. Failed illegal_operation"
        and reply = all_subscribed and s = setting_up and ch = 2 and c = 1]
  by (simp add: setting_up_def eval_defs precondition_failed_def illegal_operation_def)

text \<open>
  C8. The handler's answer to a broker cancel of consumer \<open>c\<close>: the tag is
  cleared; if \<open>c\<close> is registered and there is a channel, \<^verbatim>\<open>channel.consume\<close> is
  called on it again (after \<^verbatim>\<open>prefetch\<close>, if the consumer has one). Success
  stores the new tag and emits nothing; a failure with code 404 emits nothing;
  any other failure emits one \<^verbatim>\<open>'error'\<close> event. If \<open>c\<close> is not registered, and in
  particular after \<^verbatim>\<open>cancel\<close> or \<^verbatim>\<open>cancelAll\<close> removed it, no call is made and
  nothing is emitted.
\<close>

theorem C8_broker_cancel_resubscribes:
  assumes "consumer_objs s c = Some obj"
    and "resubscribe = (case prefetch obj of Some n \<Rightarrow> [Prefetch ch n] | None \<Rightarrow> []) @
                       [ConsumeCall ch (queue obj) (tag_option obj) c]"
  shows "map_option consumerTag (consumer_objs (set_tag c None s) c) = Some None \<and>
         (c \<in> set (consumers s) \<and> channel s = Some ch \<longrightarrow>
            broker_cancel c (Subscribed t) s =
              s\<lparr>consumer_objs := (consumer_objs s)(c := Some (obj\<lparr>consumerTag := Some t\<rparr>)),
                chan_calls := chan_calls s @ resubscribe\<rparr> \<and>
            broker_cancel c (Refused e) s =
              s\<lparr>consumer_objs := (consumer_objs s)(c := Some (obj\<lparr>consumerTag := None\<rparr>)),
                emitted := emitted s @ (if err_code e = Some 404 then [] else [ErrorEv e]),
                chan_calls := chan_calls s @ resubscribe\<rparr>) \<and>
         (c \<notin> set (consumers s) \<or> channel s = None \<longrightarrow>
            broker_cancel c reply s = set_tag c None s \<and>
            chan_calls (broker_cancel c reply s) = chan_calls s \<and>
            emitted (broker_cancel c reply s) = emitted s) \<and>
         (distinct (consumers s) \<and> List.find (has_option_tag s g) (consumers s) = Some c \<longrightarrow>
            c \<notin> set (consumers (cancel g s)) \<and>
            chan_calls (broker_cancel c reply (cancel g s)) = chan_calls (cancel g s) \<and>
            emitted (broker_cancel c reply (cancel g s)) = emitted (cancel g s)) \<and>
         chan_calls (broker_cancel c reply (cancelAll s)) = chan_calls (cancelAll s) \<and>
         emitted (broker_cancel c reply (cancelAll s)) = emitted (cancelAll s)"
proof -
  have a: "map_option consumerTag (consumer_objs (set_tag c None s) c) = Some None"
    using assms(1) by (simp add: set_tag_def)
  have st: "chan_calls (set_tag c None w) = chan_calls w \<and> emitted (set_tag c None w) = emitted w" for w
    by (simp add: set_tag_def split: option.splits)
  have d: "c \<notin> set (consumers (cancel g s)) \<and>
            chan_calls (broker_cancel c reply (cancel g s)) = chan_calls (cancel g s) \<and>
            emitted (broker_cancel c reply (cancel g s)) = emitted (cancel g s)"
    if "distinct (consumers s)" "List.find (has_option_tag s g) (consumers s) = Some c"
  proof -
    note r = cancel_removes[OF that]
    have "consumer_objs (cancel g s) c = Some obj" using r(2) assms(1) by simp
    from broker_cancel_cases(1)[OF this, of reply] r(1)
    have "broker_cancel c reply (cancel g s) = set_tag c None (cancel g s)" by simp
    then show ?thesis using r(1) st by simp
  qed
  have "consumer_objs (cancelAll s) c = Some obj" using cancelAll_clears(2) assms(1) by simp
  from broker_cancel_cases(1)[OF this, of reply]
  have "broker_cancel c reply (cancelAll s) = set_tag c None (cancelAll s)"
    by (simp add: cancelAll_clears(1))
  then have ca: "chan_calls (broker_cancel c reply (cancelAll s)) = chan_calls (cancelAll s) \<and>
         emitted (broker_cancel c reply (cancelAll s)) = emitted (cancelAll s)"
    using st by simp
  show ?thesis
    using a d st ca broker_cancel_cases[OF assms(1)] unfolding assms(2)
    by auto
qed

text \<open>C8 at a concrete input.\<close>

theorem C8_witness:
  "chan_calls (broker_cancel 0 (Subscribed ''t2'') subscribed) =
     [Prefetch 1 10, ConsumeCall 1 ''jobs'' ''abc123'' 0,
      Prefetch 1 10, ConsumeCall 1 ''jobs'' ''abc123'' 0] \<and>
   emitted (broker_cancel 0 (Refused not_found) subscribed) = [ConnectEv] \<and>
   emitted (broker_cancel 0 (Refused precondition_failed) subscribed) =
     [ConnectEv, ErrorEv precondition_failed] \<and>
   chan_calls (broker_cancel 0 (Subscribed ''t2'') (cancel ''abc123'' subscribed)) =
     [Prefetch 1 10, ConsumeCall 1 ''jobs'' ''abc123'' 0, CancelCall 1 ''abc123'']"
  using C8_broker_cancel_resubscribes[OF subscribed_fields(2) refl,
      where ch = 1 and t = "''t2''" and e = not_found and g = "''abc123''"
        and reply = "Subscribed ''t2''"]
  by (simp add: subscribed_def eval_defs not_found_def precondition_failed_def)

text \<open>
  C9, as stated, fails: a consumer subscribed on channel 1 keeps its tag when the
  connection manager reports a disconnect, and when channel 1 closes; there is no
  channel then.
\<close>

theorem C9_counterexample:
  "consumers subscribed_then_lost = [0] \<and>
   map_option consumerTag (consumer_objs subscribed_then_lost 0) = Some (Some ''abc123'') \<and>
   channel subscribed_then_lost = None \<and>
   consumers subscribed_then_closed = [0] \<and>
   map_option consumerTag (consumer_objs subscribed_then_closed 0) = Some (Some ''abc123'') \<and>
   channel subscribed_then_closed = None"
  by (simp add: subscribed_then_lost_def subscribed_then_closed_def eval_defs)

text \<open>
  C9, amended. \<^verbatim>\<open>_onDisconnect\<close> and \<^verbatim>\<open>_onChannelClose\<close> change neither the
  registry nor any consumer, so tags outlive the channel. A broker cancel clears
  the tag, and the re-subscription that follows sets it to the tag the broker
  returns. When the setup chain of a new channel settles, every registered
  consumer is subscribed again and gets the tag the broker returns; a consumer
  whose re-subscription is refused, or that is no longer registered, keeps the tag
  it had. A consumer registered by \<^verbatim>\<open>consume\<close> has no tag unless there is a
  channel and the subscription succeeds. Nothing else changes a consumer:
  \<^verbatim>\<open>consume\<close> and a broker cancel leave all other consumers as they are, and
  every transition other than \<^verbatim>\<open>consume\<close>, a broker cancel and the end of a
  setup chain leaves all of them as they are.
\<close>

theorem C9_tag_set_and_cleared:
  "consumer_objs (onDisconnect s) = consumer_objs s \<and> consumers (onDisconnect s) = consumers s \<and>
   consumer_objs (onChannelClose ch s) = consumer_objs s \<and>
   consumers (onChannelClose ch s) = consumers s \<and>
   (consumer_objs s c = Some obj \<longrightarrow>
      map_option consumerTag (consumer_objs (set_tag c None s) c) = Some None \<and>
      map_option consumerTag (consumer_objs (broker_cancel c reply s) c) =
        Some (if c \<in> set (consumers s) \<and> channel s \<noteq> None
              then (case reply of Subscribed t \<Rightarrow> Some t | Refused e \<Rightarrow> None) else None) \<and>
      map_option consumerTag (consumer_objs (onConnect_settled pub outs replies s) c) =
        Some (if c \<in> set (consumers s) \<and> channel s \<noteq> None
              then (case replies c of Subscribed t \<Rightarrow> Some t | Refused e \<Rightarrow> consumerTag obj)
              else consumerTag obj)) \<and>
   consumers (consume q opt_tag pre rnd reply s) = consumers s @ [allocated s] \<and>
   map_option consumerTag (consumer_objs (consume q opt_tag pre rnd reply s) (allocated s)) =
     Some (if channel s \<noteq> None
           then (case reply of Subscribed t \<Rightarrow> Some t | Refused e \<Rightarrow> None) else None) \<and>
   (k \<noteq> allocated s \<longrightarrow>
      consumer_objs (consume q opt_tag pre rnd reply s) k = consumer_objs s k) \<and>
   (k \<noteq> c \<longrightarrow> consumer_objs (broker_cancel c reply s) k = consumer_objs s k) \<and>
   (\<not> subscribing ev \<longrightarrow> consumer_objs (step pub ev s) = consumer_objs s)"
proof -
  have a: "map_option consumerTag (consumer_objs (broker_cancel c reply s) c) =
        Some (if c \<in> set (consumers s) \<and> channel s \<noteq> None
              then (case reply of Subscribed t \<Rightarrow> Some t | Refused e \<Rightarrow> None) else None)"
    if o: "consumer_objs s c = Some obj"
  proof (cases "c \<in> set (consumers s) \<and> channel s \<noteq> None")
    case True
    then obtain k where k: "channel s = Some k" by auto
    show ?thesis using True k broker_cancel_cases(2,3)[OF o _ k] by (cases reply) simp_all
  next
    case False
    then show ?thesis using broker_cancel_cases(1)[OF o, of reply] o
      by (auto simp: set_tag_def)
  qed
  have b: "consumers (consume q opt_tag pre rnd reply s) = consumers s @ [allocated s] \<and>
   map_option consumerTag (consumer_objs (consume q opt_tag pre rnd reply s) (allocated s)) =
     Some (if channel s \<noteq> None
           then (case reply of Subscribed t \<Rightarrow> Some t | Refused e \<Rightarrow> None) else None)"
    by (auto simp: consume_def consume_inner_def consume_call_def set_tag_def chan_call_def Let_def
        split: option.splits consume_reply.splits)
  have r: "map_option consumerTag (consumer_objs (onConnect_settled pub outs replies s) c) =
        Some (if c \<in> set (consumers s) \<and> channel s \<noteq> None
              then (case replies c of Subscribed t \<Rightarrow> Some t | Refused e \<Rightarrow> consumerTag obj)
              else consumerTag obj)"
    if o: "consumer_objs s c = Some obj"
    by (auto simp: objs_onConnect_settled o resubscribed_def split: consume_reply.splits)
  have f: "consumer_objs (onDisconnect s) = consumer_objs s \<and> consumers (onDisconnect s) = consumers s \<and>
   consumer_objs (onChannelClose ch s) = consumer_objs s \<and>
   consumers (onChannelClose ch s) = consumers s"
    by (simp add: onDisconnect_def onChannelClose_def)
  have t: "map_option consumerTag (consumer_objs (set_tag c None s) c) = Some None"
    if "consumer_objs s c = Some obj"
    using that by (simp add: set_tag_def)
  show ?thesis
    using a b r f t objs_consume_other[of k s q opt_tag pre rnd reply]
      objs_broker_cancel_other[of k c reply s] objs_step[of ev pub s]
    by blast
qed

text \<open>C9, amended, at a concrete input.\<close>

theorem C9_witness:
  "map_option consumerTag (consumer_objs (broker_cancel 0 (Refused not_found) subscribed) 0) = Some None \<and>
   map_option consumerTag (consumer_objs (broker_cancel 0 (Subscribed ''t2'') subscribed) 0) =
     Some (Some ''t2'') \<and>
   map_option consumerTag (consumer_objs (onDisconnect subscribed) 0) = Some (Some ''abc123'') \<and>
   map_option consumerTag (consumer_objs (step always_room Close subscribed) 0) = Some (Some ''abc123'') \<and>
   map_option consumerTag
     (consumer_objs (onConnect_settled always_room all_fulfilled (\<lambda>c. Subscribed ''t3'') reconnecting) 0) =
     Some (Some ''t3'') \<and>
   map_option consumerTag
     (consumer_objs (onConnect_settled always_room all_fulfilled (\<lambda>c. Refused not_found) reconnecting) 0) =
     Some (Some ''abc123'')"
proof -
  let ?obj = "\<lparr>consumerTag = Some ''abc123'', queue = ''jobs'', prefetch = Some 10,
               tag_option = ''abc123''\<rparr>"
  have o: "consumer_objs subscribed 0 = Some ?obj" by (rule subscribed_fields(2))
  have o2: "consumer_objs reconnecting 0 = Some ?obj" by (rule reconnecting_fields(2))
  have n: "\<not> subscribing Close" by simp
  note i = C9_tag_set_and_cleared[where s = subscribed and c = 0 and obj = ?obj
      and ev = Close and pub = always_room]
  have a: "map_option consumerTag (consumer_objs (broker_cancel 0 (Refused not_found) subscribed) 0) =
        Some (if 0 \<in> set (consumers subscribed) \<and> channel subscribed \<noteq> None
              then (case Refused not_found of Subscribed t \<Rightarrow> Some t | Refused e \<Rightarrow> None) else None)"
    using i[where reply = "Refused not_found"] o by blast
  have b: "map_option consumerTag (consumer_objs (broker_cancel 0 (Subscribed ''t2'') subscribed) 0) =
        Some (if 0 \<in> set (consumers subscribed) \<and> channel subscribed \<noteq> None
              then (case Subscribed ''t2'' of Subscribed t \<Rightarrow> Some t | Refused e \<Rightarrow> None) else None)"
    using i[where reply = "Subscribed ''t2''"] o by blast
  have c: "consumer_objs (onDisconnect subscribed) = consumer_objs subscribed"
    using i by blast
  have d: "consumer_objs (step always_room Close subscribed) = consumer_objs subscribed"
    using i n by blast
  note j = C9_tag_set_and_cleared[where s = reconnecting and c = 0 and obj = ?obj
      and pub = always_room and outs = all_fulfilled]
  have e: "map_option consumerTag
      (consumer_objs (onConnect_settled always_room all_fulfilled (\<lambda>c. Subscribed ''t3'') reconnecting) 0) =
        Some (if 0 \<in> set (consumers reconnecting) \<and> channel reconnecting \<noteq> None
              then (case Subscribed ''t3'' of Subscribed t \<Rightarrow> Some t | Refused e \<Rightarrow> consumerTag ?obj)
              else consumerTag ?obj)"
    using j[where replies = "\<lambda>c. Subscribed ''t3''"] o2 by blast
  have f: "map_option consumerTag
      (consumer_objs (onConnect_settled always_room all_fulfilled (\<lambda>c. Refused not_found) reconnecting) 0) =
        Some (if 0 \<in> set (consumers reconnecting) \<and> channel reconnecting \<noteq> None
              then (case Refused not_found of Subscribed t \<Rightarrow> Some t | Refused e \<Rightarrow> consumerTag ?obj)
              else consumerTag ?obj)"
    using j[where replies = "\<lambda>c. Refused not_found"] o2 by blast
  show ?thesis
    unfolding a b c d e f
    by (simp add: subscribed_fields reconnecting_fields)
qed

text \<open>
  C10. A \<^verbatim>\<open>close\<close> event of a channel that is not the current one changes
  nothing: the handler, and the transition it stands for, leave the state as it
  is, so the current channel stays.
\<close>

theorem C10_stale_close_keeps_channel:
  assumes "channel s = Some cur" and "ch \<noteq> cur"
  shows "onChannelClose ch s = s \<and> step pub (ChannelClose ch) s = s"
  using assms by (simp add: onChannelClose_def)

text \<open>C10 at a concrete input.\<close>

theorem C10_witness:
  "onChannelClose 1 two_channels = two_channels \<and>
   step always_room (ChannelClose 1) two_channels = two_channels \<and>
   channel (onChannelClose 1 two_channels) = Some 2 \<and>
   channel (onChannelClose 2 two_channels) = None"
  using C10_stale_close_keeps_channel[of two_channels 2 1 always_room]
  by (simp add: two_channels_channel onChannelClose_def)

end
